theory Spec2Isabelle
  imports Main
begin

section \<open>Strings, JSON values and their serialisation\<close>

text \<open>
  JavaScript strings are modelled as \<^typ>\<open>string\<close> (code units below 256) and JavaScript
  numbers as \<^typ>\<open>int\<close>: every number the log buffer computes itself (sequence numbers,
  sizes, counters) is an integer.
\<close>

datatype json =
    JNull
  | JBool bool
  | JNum int
  | JStr string
  | JArr "json list"
  | JObj "(string \<times> json) list"

definition digit_char :: "nat \<Rightarrow> char" where
  "digit_char d = ''0123456789'' ! d"

fun dec_nat :: "nat \<Rightarrow> string" where
  "dec_nat n = (if n < 10 then [digit_char n] else dec_nat (n div 10) @ [digit_char (n mod 10)])"

declare dec_nat.simps [simp del]

definition Number_toString :: "int \<Rightarrow> string" where
  \<comment> \<open>\<open>String(n)\<close> and the \<open>${n}\<close> of a template literal, for an integer \<open>n\<close>.\<close>
  "Number_toString n = (if n < 0 then CHR ''-'' # dec_nat (nat (- n)) else dec_nat (nat n))"

definition hex_char :: "nat \<Rightarrow> char" where
  "hex_char d = ''0123456789abcdef'' ! d"

definition json_escape_char :: "char \<Rightarrow> string" where
  \<comment> \<open>\<open>JSON.stringify\<close>'s quoting of one code unit.\<close>
  "json_escape_char c =
     (if c = CHR 0x22 then [CHR 0x5C, CHR 0x22]
      else if c = CHR 0x5C then [CHR 0x5C, CHR 0x5C]
      else if c = CHR 0x08 then [CHR 0x5C, CHR ''b'']
      else if c = CHR 0x09 then [CHR 0x5C, CHR ''t'']
      else if c = CHR 0x0A then [CHR 0x5C, CHR ''n'']
      else if c = CHR 0x0C then [CHR 0x5C, CHR ''f'']
      else if c = CHR 0x0D then [CHR 0x5C, CHR ''r'']
      else if (of_char c :: nat) < 32
        then [CHR 0x5C, CHR ''u'', CHR ''0'', CHR ''0'',
              hex_char ((of_char c :: nat) div 16), hex_char ((of_char c :: nat) mod 16)]
      else [c])"

definition json_quote :: "string \<Rightarrow> string" where
  "json_quote s = [CHR 0x22] @ concat (map json_escape_char s) @ [CHR 0x22]"

fun join :: "string \<Rightarrow> string list \<Rightarrow> string" where
  \<comment> \<open>\<open>Array.prototype.join\<close>\<close>
  "join sep [] = []"
| "join sep [x] = x"
| "join sep (x # y # ys) = x @ sep @ join sep (y # ys)"

fun JSON_stringify :: "json \<Rightarrow> string" where
  "JSON_stringify JNull = ''null''"
| "JSON_stringify (JBool b) = (if b then ''true'' else ''false'')"
| "JSON_stringify (JNum n) = Number_toString n"
| "JSON_stringify (JStr s) = json_quote s"
| "JSON_stringify (JArr xs) = ''['' @ join '','' (map JSON_stringify xs) @ '']''"
| "JSON_stringify (JObj kvs) =
     ''{'' @ join '','' (map (\<lambda>(k, v). json_quote k @ '':'' @ JSON_stringify v) kvs) @ ''}''"

definition truthy :: "json \<Rightarrow> bool" where
  \<comment> \<open>JavaScript truthiness (\<open>data ? ... : ...\<close>, \<open>if (this.data)\<close>).\<close>
  "truthy j = (case j of
       JNull \<Rightarrow> False
     | JBool b \<Rightarrow> b
     | JNum n \<Rightarrow> n \<noteq> 0
     | JStr s \<Rightarrow> s \<noteq> []
     | JArr _ \<Rightarrow> True
     | JObj _ \<Rightarrow> True)"

definition js_length :: "'a list \<Rightarrow> int" where
  \<comment> \<open>the \<open>.length\<close> of a string or an array, as a number\<close>
  "js_length xs = int (length xs)"

definition is_prefix :: "string \<Rightarrow> string \<Rightarrow> bool" where
  \<comment> \<open>\<open>s.startsWith(p)\<close>\<close>
  "is_prefix p s = (take (length p) s = p)"

fun str_includes :: "string \<Rightarrow> string \<Rightarrow> bool" where
  \<comment> \<open>\<open>s.includes(p)\<close>: \<open>p\<close> occurs in \<open>s\<close> as a substring\<close>
  "str_includes [] p = (p = [])"
| "str_includes (c # cs) p = (is_prefix p (c # cs) \<or> str_includes cs p)"

fun indexOf :: "string \<Rightarrow> char \<Rightarrow> nat option" where
  \<comment> \<open>\<open>s.indexOf(c)\<close>; \<open>None\<close> stands for \<open>-1\<close>\<close>
  "indexOf [] c = None"
| "indexOf (x # xs) c = (if x = c then Some 0 else map_option Suc (indexOf xs c))"

definition upper_chars :: string where
  "upper_chars = ''ABCDEFGHIJKLMNOPQRSTUVWXYZ'' @
     [CHR 0xC0, CHR 0xC1, CHR 0xC2, CHR 0xC3, CHR 0xC4, CHR 0xC5, CHR 0xC6, CHR 0xC7,
      CHR 0xC8, CHR 0xC9, CHR 0xCA, CHR 0xCB, CHR 0xCC, CHR 0xCD, CHR 0xCE, CHR 0xCF,
      CHR 0xD0, CHR 0xD1, CHR 0xD2, CHR 0xD3, CHR 0xD4, CHR 0xD5, CHR 0xD6,
      CHR 0xD8, CHR 0xD9, CHR 0xDA, CHR 0xDB, CHR 0xDC, CHR 0xDD, CHR 0xDE]"

definition lower_chars :: string where
  "lower_chars = ''abcdefghijklmnopqrstuvwxyz'' @
     [CHR 0xE0, CHR 0xE1, CHR 0xE2, CHR 0xE3, CHR 0xE4, CHR 0xE5, CHR 0xE6, CHR 0xE7,
      CHR 0xE8, CHR 0xE9, CHR 0xEA, CHR 0xEB, CHR 0xEC, CHR 0xED, CHR 0xEE, CHR 0xEF,
      CHR 0xF0, CHR 0xF1, CHR 0xF2, CHR 0xF3, CHR 0xF4, CHR 0xF5, CHR 0xF6,
      CHR 0xF8, CHR 0xF9, CHR 0xFA, CHR 0xFB, CHR 0xFC, CHR 0xFD, CHR 0xFE]"

definition toLowerCase_char :: "char \<Rightarrow> char" where
  \<comment> \<open>\<open>toLowerCase\<close> on one code unit below 256\<close>
  "toLowerCase_char c = (case map_of (zip upper_chars lower_chars) c of Some l \<Rightarrow> l | None \<Rightarrow> c)"

definition swap_case :: "char \<Rightarrow> char" where
  \<comment> \<open>the other case of an ASCII letter; any other character is left alone\<close>
  "swap_case c =
     (case map_of (zip (take 26 upper_chars @ take 26 lower_chars)
                       (take 26 lower_chars @ take 26 upper_chars)) c of
        Some d \<Rightarrow> d | None \<Rightarrow> c)"

definition toLowerCase :: "string \<Rightarrow> string" where
  "toLowerCase s = map toLowerCase_char s"

definition is_space :: "char \<Rightarrow> bool" where
  \<comment> \<open>the code units below 256 that \<open>\s\<close> and \<open>trim()\<close> treat as white space\<close>
  "is_space c = (c \<in> set [CHR 0x09, CHR 0x0A, CHR 0x0B, CHR 0x0C, CHR 0x0D, CHR 0x20, CHR 0xA0])"

definition trim :: "string \<Rightarrow> string" where
  "trim s = rev (dropWhile is_space (rev (dropWhile is_space s)))"


section \<open>Regular expressions and the text scrubber\<close>

text \<open>
  The fragment of JavaScript regular expressions that \<open>REDACTION_PATTERNS\<close> uses, with the
  backtracking order of the language: \<open>rmatch r s\<close> lists, in the order in which the engine
  tries them, the remainders of \<open>s\<close> that a match of \<open>r\<close> at the start of \<open>s\<close> leaves.
\<close>

datatype regex =
    Eps
  | Chars "char \<Rightarrow> bool"
  | Seq regex regex
  | Alt regex regex
  | Star regex

fun star_iter :: "(string \<Rightarrow> string list) \<Rightarrow> nat \<Rightarrow> string \<Rightarrow> string list" where
  \<comment> \<open>greedy iteration; an iteration that consumes nothing is not taken\<close>
  "star_iter f 0 s = [s]"
| "star_iter f (Suc n) s =
     concat (map (star_iter f n) (filter (\<lambda>t. length t < length s) (f s))) @ [s]"

fun rmatch :: "regex \<Rightarrow> string \<Rightarrow> string list" where
  "rmatch Eps s = [s]"
| "rmatch (Chars P) s = (case s of [] \<Rightarrow> [] | c # cs \<Rightarrow> if P c then [cs] else [])"
| "rmatch (Seq a b) s = concat (map (rmatch b) (rmatch a s))"
| "rmatch (Alt a b) s = rmatch a s @ rmatch b s"
| "rmatch (Star a) s = star_iter (rmatch a) (length s) s"

definition Plus :: "regex \<Rightarrow> regex" where
  "Plus r = Seq r (Star r)"

definition Opt :: "regex \<Rightarrow> regex" where
  "Opt r = Alt r Eps"

fun Seqs :: "regex list \<Rightarrow> regex" where
  "Seqs [] = Eps"
| "Seqs (r # rs) = Seq r (Seqs rs)"

definition AtLeast :: "nat \<Rightarrow> regex \<Rightarrow> regex" where
  \<comment> \<open>\<open>r{n,}\<close>\<close>
  "AtLeast n r = Seqs (replicate n r @ [Star r])"

definition ci_char :: "char \<Rightarrow> regex" where
  \<comment> \<open>one pattern character under the \<open>i\<close> flag: an ASCII letter stands for both its cases\<close>
  "ci_char x = Chars (\<lambda>c. c = x \<or> c = swap_case x)"

definition ci :: "string \<Rightarrow> regex" where
  \<comment> \<open>a literal under the \<open>i\<close> flag\<close>
  "ci s = Seqs (map ci_char s)"

definition one_of :: "string \<Rightarrow> regex" where
  \<comment> \<open>a character class listing its members\<close>
  "one_of cs = Chars (\<lambda>c. c \<in> set cs)"

definition is_alnum :: "char \<Rightarrow> bool" where
  \<comment> \<open>\<open>[A-Za-z0-9]\<close>\<close>
  "is_alnum c = (c \<in> set (take 26 upper_chars @ take 26 lower_chars @ ''0123456789''))"

definition quote_chars :: string where
  \<comment> \<open>the apostrophe and the double quote\<close>
  "quote_chars = [CHR 0x27, CHR 0x22]"

definition sep_chars :: regex where
  \<comment> \<open>\<open>['":\s]*\<close>\<close>
  "sep_chars = Star (Chars (\<lambda>c. c \<in> set quote_chars \<or> c = CHR '':'' \<or> is_space c))"

definition quote :: regex where
  \<comment> \<open>\<open>['"]\<close>\<close>
  "quote = one_of quote_chars"

definition quoted_value :: regex where
  \<comment> \<open>\<open>['"][^'"]+['"]\<close>\<close>
  "quoted_value = Seqs [quote, Plus (Chars (\<lambda>c. c \<notin> set quote_chars)), quote]"

definition keyed :: "regex list \<Rightarrow> regex" where
  \<comment> \<open>\<open>key['":\s]*['"][^'"]+['"]\<close>\<close>
  "keyed key = Seqs (key @ [sep_chars, quoted_value])"

definition dash :: regex where
  \<comment> \<open>\<open>[_-]?\<close>\<close>
  "dash = Opt (one_of ''_-'')"

definition token_char :: regex where
  \<comment> \<open>\<open>[A-Za-z0-9\-_]\<close>\<close>
  "token_char = Chars (\<lambda>c. is_alnum c \<or> c \<in> set ''-_'')"

definition b64_char :: regex where
  \<comment> \<open>\<open>[A-Za-z0-9+/=]\<close>\<close>
  "b64_char = Chars (\<lambda>c. is_alnum c \<or> c \<in> set ''+/='')"

definition spaces1 :: regex where
  \<comment> \<open>\<open>\s+\<close>\<close>
  "spaces1 = Plus (Chars is_space)"

definition REDACTION_PATTERNS :: "regex list" where
  "REDACTION_PATTERNS =
    [ Seqs [ci ''authorization'', sep_chars, quote,
            Alt (ci ''Bearer'') (Alt (ci ''Basic'') (Alt (ci ''Digest'') (ci ''OAuth''))),
            spaces1, Plus (Chars (\<lambda>c. c \<notin> set quote_chars)), quote],
      Seqs [ci ''Bearer'', spaces1, Plus token_char, ci ''.'', Plus token_char, ci ''.'',
            Plus token_char],
      Seqs [ci ''Basic'', spaces1, Plus b64_char],
      keyed [ci ''cookie''],
      keyed [ci ''set-cookie''],
      keyed [ci ''access'', dash, ci ''token''],
      keyed [ci ''refresh'', dash, ci ''token''],
      keyed [ci ''id'', dash, ci ''token''],
      keyed [ci ''api'', dash, ci ''key''],
      keyed [ci ''apikey''],
      keyed [ci ''x-api-key''],
      keyed [ci ''password''],
      keyed [ci ''passwd''],
      keyed [ci ''secret''],
      keyed [ci ''private'', dash, ci ''key''],
      keyed [ci ''aws'', dash, ci ''access'', dash, ci ''key'', dash, ci ''id''],
      keyed [ci ''aws'', dash, ci ''secret'', dash, ci ''access'', dash, ci ''key''],
      Seqs [ci ''token'', sep_chars, quote, AtLeast 20 token_char, quote] ]"

definition REDACTED :: string where
  "REDACTED = ''***REDACTED***''"

function replace_all :: "regex \<Rightarrow> (string \<Rightarrow> string) \<Rightarrow> string \<Rightarrow> string" where
  \<comment> \<open>\<open>text.replace(pattern, f)\<close> for a pattern with the \<open>g\<close> flag that matches no empty string\<close>
  "replace_all r f [] = []"
| "replace_all r f (c # cs) =
     (case rmatch r (c # cs) of
        [] \<Rightarrow> c # replace_all r f cs
      | t # _ \<Rightarrow>
          if length t < length (c # cs)
          then f (take (length (c # cs) - length t) (c # cs)) @ replace_all r f t
          else c # replace_all r f cs)"
  by pat_completeness auto
termination
  by (relation "measure (\<lambda>(r, f, s). length s)") auto

definition redact_match :: "string \<Rightarrow> string" where
  \<comment> \<open>the replacement callback of \<open>_sanitize\<close>: keep the key name, redact the value\<close>
  "redact_match m =
     (let colonIndex = indexOf m CHR '':'';
          equalsIndex = indexOf m CHR ''='';
          separatorIndex = (if colonIndex \<noteq> None then colonIndex else equalsIndex)
      in case separatorIndex of
           Some i \<Rightarrow> take (i + 1) m @ '' '' @ [CHR 0x22] @ REDACTED @ [CHR 0x22]
         | None \<Rightarrow> REDACTED)"

definition sanitize :: "string \<Rightarrow> string" where
  \<comment> \<open>\<open>LogBuffer._sanitize\<close> on a string\<close>
  "sanitize text = foldl (\<lambda>result pattern. replace_all pattern redact_match result) text REDACTION_PATTERNS"


section \<open>Structured scrubbing\<close>

definition sensitive_key :: "string \<Rightarrow> bool" where
  \<comment> \<open>the key test of \<open>_sanitizeObject\<close>\<close>
  "sensitive_key key =
     (let lowerKey = toLowerCase key in
        str_includes lowerKey ''password'' \<or>
        str_includes lowerKey ''secret'' \<or>
        str_includes lowerKey ''token'' \<or>
        str_includes lowerKey ''apikey'' \<or>
        str_includes lowerKey ''api_key'' \<or>
        str_includes lowerKey ''authorization'' \<or>
        str_includes lowerKey ''cookie'' \<or>
        str_includes lowerKey ''credential'')"

definition typeof_object :: "json \<Rightarrow> bool" where
  \<comment> \<open>\<open>typeof value === 'object'\<close>: \<open>null\<close>, arrays and objects\<close>
  "typeof_object v = (case v of JNull \<Rightarrow> True | JArr _ \<Rightarrow> True | JObj _ \<Rightarrow> True | _ \<Rightarrow> False)"

fun set_prop :: "(string \<times> json) list \<Rightarrow> string \<Rightarrow> json \<Rightarrow> (string \<times> json) list" where
  \<comment> \<open>an own property is overwritten where it stands, a new one comes last\<close>
  "set_prop [] key v = [(key, v)]"
| "set_prop (p # ps) key v = (if fst p = key then (key, v) # ps else p # set_prop ps key v)"

definition assign :: "(string \<times> json) list \<Rightarrow> string \<Rightarrow> json \<Rightarrow> (string \<times> json) list" where
  \<comment> \<open>\<open>result[key] = v\<close> on an object made by the literal \<open>{}\<close>, as the list of its own
    properties. The key \<open>__proto__\<close> is the accessor inherited from \<open>Object.prototype\<close>: the
    assignment runs its setter, which makes an object or \<open>null\<close> the prototype of \<open>result\<close> and
    does nothing with any other value, and \<open>result\<close> gets no own property.\<close>
  "assign result key v = (if key = ''__proto__'' then result else set_prop result key v)"

fun sanitizeObject :: "json \<Rightarrow> json" where
  \<comment> \<open>\<open>_sanitizeObject\<close>; an object is the list of its own properties, as \<open>Object.entries\<close>
    and \<open>JSON.stringify\<close> go through them\<close>
  "sanitizeObject JNull = JNull"
| "sanitizeObject (JStr s) = JStr (sanitize s)"
| "sanitizeObject (JArr xs) = JArr (map sanitizeObject xs)"
| "sanitizeObject (JObj kvs) =
     JObj (foldl (\<lambda>result kv.
        assign result (fst kv)
          (if sensitive_key (fst kv) then JStr REDACTED
           else if typeof_object (snd kv) then sanitizeObject (snd kv)
           else (case snd kv of JStr s \<Rightarrow> JStr (sanitize s) | v \<Rightarrow> v))) [] kvs)"
| "sanitizeObject (JBool b) = JBool b"
| "sanitizeObject (JNum n) = JNum n"

section \<open>Log events\<close>

definition LOG_LEVELS :: "string list" where
  "LOG_LEVELS = [''debug'', ''info'', ''warn'', ''error'']"

definition MAX_STACK_LINES :: int where
  "MAX_STACK_LINES = 40"

record LogEvent =
  seq :: int
  ts :: string
  level :: string
  source :: string
  message :: string
  data :: json
  e_size :: int

definition calculateSize :: "string \<Rightarrow> string \<Rightarrow> string \<Rightarrow> string \<Rightarrow> json \<Rightarrow> int" where
  \<comment> \<open>\<open>LogEvent._calculateSize\<close>\<close>
  "calculateSize t lv src msg d =
     (let size = js_length t + js_length lv + js_length src + js_length msg + 100
      in if truthy d then size + js_length (JSON_stringify d) else size)"

definition new_LogEvent :: "string \<Rightarrow> int \<Rightarrow> string \<Rightarrow> string \<Rightarrow> string \<Rightarrow> json \<Rightarrow> LogEvent" where
  \<comment> \<open>the constructor; \<open>now\<close> is what \<open>new Date().toISOString()\<close> returns\<close>
  "new_LogEvent now sq lv src msg d =
     \<lparr> seq = sq, ts = now, level = lv, source = src, message = msg, data = d,
       e_size = calculateSize now lv src msg d \<rparr>"

definition toJSON :: "LogEvent \<Rightarrow> bool \<Rightarrow> json" where
  "toJSON e includeStructured =
     JObj [(''ts'', JStr (ts e)), (''level'', JStr (level e)), (''source'', JStr (source e)),
           (''message'', JStr (message e)),
           (''data'', if includeStructured \<and> data e \<noteq> JNull then data e else JNull)]"

section \<open>Stack-trace truncation\<close>

fun split_nl :: "string \<Rightarrow> string list" where
  \<comment> \<open>\<open>message.split('\n')\<close>\<close>
  "split_nl [] = [[]]"
| "split_nl (c # cs) =
     (if c = CHR 0x0A then [] # split_nl cs
      else (case split_nl cs of [] \<Rightarrow> [[c]] | l # ls \<Rightarrow> (c # l) # ls))"

definition slice_index :: "'a list \<Rightarrow> int \<Rightarrow> nat" where
  \<comment> \<open>how \<open>slice\<close> reads an index: a negative one counts from the end\<close>
  "slice_index xs k = (if k < 0 then nat (max (js_length xs + k) 0) else nat (min k (js_length xs)))"

definition slice :: "'a list \<Rightarrow> int \<Rightarrow> int \<Rightarrow> 'a list" where
  \<comment> \<open>\<open>xs.slice(start, end)\<close>\<close>
  "slice xs start stop = take (slice_index xs stop - slice_index xs start) (drop (slice_index xs start) xs)"

definition slice_from :: "'a list \<Rightarrow> int \<Rightarrow> 'a list" where
  \<comment> \<open>\<open>xs.slice(start)\<close>\<close>
  "slice_from xs start = drop (slice_index xs start) xs"

definition is_stack_line :: "string \<Rightarrow> bool" where
  \<comment> \<open>\<open>line.trim().startsWith('at ')\<close>\<close>
  "is_stack_line l = is_prefix ''at '' (trim l)"

fun find_stack_start :: "string list \<Rightarrow> nat option" where
  \<comment> \<open>the index of the first stack line; \<open>None\<close> stands for \<open>-1\<close>\<close>
  "find_stack_start [] = None"
| "find_stack_start (l # ls) = (if is_stack_line l then Some 0 else map_option Suc (find_stack_start ls))"

definition truncateStackTrace :: "string \<Rightarrow> string" where
  "truncateStackTrace msg =
     (let lines = split_nl msg in
      if js_length lines \<le> MAX_STACK_LINES then msg
      else case find_stack_start lines of
        None \<Rightarrow> join [CHR 0x0A] (slice lines 0 MAX_STACK_LINES) @ [CHR 0x0A] @ ''... (truncated)''
      | Some stackStart \<Rightarrow>
          (let messageLines = slice lines 0 (int stackStart);
               stackLines = slice_from lines (int stackStart);
               maxStackLines = MAX_STACK_LINES - js_length messageLines
           in if js_length stackLines \<le> maxStackLines then msg
              else
                (let truncatedStack = slice stackLines 0 maxStackLines;
                     omitted = js_length stackLines - maxStackLines
                 in join [CHR 0x0A]
                      (messageLines @ truncatedStack @
                       [''... ('' @ Number_toString omitted @ '' more stack frames)'']))))"

section \<open>The buffer: append, retention, clear, stats\<close>

record Config =
  maxEvents :: int
  maxBytes :: int

definition DEFAULT_CONFIG :: Config where
  "DEFAULT_CONFIG = \<lparr> maxEvents = 10000, maxBytes = 10 * 1024 * 1024 \<rparr>"

record LogBuffer =
  b_config :: Config
  b_events :: "LogEvent list"
  b_seq :: int
  b_totalBytes :: int
  b_droppedCount :: int
  b_earliestRetainedSeq :: int

definition new_LogBuffer :: "int option \<Rightarrow> int option \<Rightarrow> LogBuffer" where
  \<comment> \<open>the constructor; \<open>None\<close> is a key that the \<open>config\<close> argument leaves out\<close>
  "new_LogBuffer me mb =
     \<lparr> b_config = \<lparr> maxEvents = (case me of None \<Rightarrow> maxEvents DEFAULT_CONFIG | Some n \<Rightarrow> n),
                    maxBytes = (case mb of None \<Rightarrow> maxBytes DEFAULT_CONFIG | Some n \<Rightarrow> n) \<rparr>,
       b_events = [], b_seq = 0, b_totalBytes = 0, b_droppedCount = 0,
       b_earliestRetainedSeq = 0 \<rparr>"

function enforceRetention :: "LogBuffer \<Rightarrow> LogBuffer" where
  "enforceRetention b =
     (if js_length (b_events b) > maxEvents (b_config b) \<or> b_totalBytes b > maxBytes (b_config b)
      then (case b_events b of
              [] \<Rightarrow> b
            | dropped # rest \<Rightarrow>
                enforceRetention
                  (b\<lparr> b_events := rest,
                      b_totalBytes := b_totalBytes b - e_size dropped,
                      b_droppedCount := b_droppedCount b + 1,
                      b_earliestRetainedSeq := (case rest of [] \<Rightarrow> b_seq b | e # _ \<Rightarrow> seq e) \<rparr>))
      else b)"
  by pat_completeness auto
termination
  by (relation "measure (\<lambda>b. length (b_events b))") auto

declare enforceRetention.simps [simp del]

definition append_event :: "LogBuffer \<Rightarrow> string \<Rightarrow> string \<Rightarrow> string \<Rightarrow> string \<Rightarrow> json \<Rightarrow> LogEvent" where
  \<comment> \<open>the event that \<open>append\<close> creates\<close>
  "append_event b now lv src msg d =
     (let lv' = (if lv \<in> set LOG_LEVELS then lv else ''info'');
          sanitizedMessage = sanitize msg;
          sanitizedData = (if truthy d then sanitizeObject d else JNull);
          truncatedMessage =
            (if lv' \<noteq> ''debug'' then truncateStackTrace sanitizedMessage else sanitizedMessage)
      in new_LogEvent now (b_seq b + 1) lv' src truncatedMessage sanitizedData)"

definition append :: "LogBuffer \<Rightarrow> string \<Rightarrow> string \<Rightarrow> string \<Rightarrow> string \<Rightarrow> json \<Rightarrow> int \<times> LogBuffer" where
  \<comment> \<open>\<open>LogBuffer.append\<close>: the sequence number returned and the buffer afterwards\<close>
  "append b now lv src msg d =
     (let event = append_event b now lv src msg d;
          sq = b_seq b + 1
      in (sq, enforceRetention
                (b\<lparr> b_seq := sq,
                    b_events := b_events b @ [event],
                    b_totalBytes := b_totalBytes b + e_size event \<rparr>)))"

definition clear :: "LogBuffer \<Rightarrow> LogBuffer" where
  "clear b = b\<lparr> b_events := [], b_totalBytes := 0, b_droppedCount := 0,
               b_earliestRetainedSeq := b_seq b \<rparr>"

record Stats =
  eventCount :: int
  totalBytes :: int
  droppedCount :: int
  currentSeq :: int
  earliestRetainedSeq :: int

definition stats :: "LogBuffer \<Rightarrow> Stats" where
  "stats b = \<lparr> eventCount = js_length (b_events b), totalBytes = b_totalBytes b,
               droppedCount = b_droppedCount b, currentSeq = b_seq b,
               earliestRetainedSeq = b_earliestRetainedSeq b \<rparr>"


section \<open>Cursors\<close>

definition b64url_alphabet :: string where
  "b64url_alphabet = ''ABCDEFGHIJKLMNOPQRSTUVWXYZabcdefghijklmnopqrstuvwxyz0123456789-_''"

definition b64_digit :: "nat \<Rightarrow> char" where
  "b64_digit n = b64url_alphabet ! n"

fun base64url :: "string \<Rightarrow> string" where
  \<comment> \<open>\<open>Buffer.from(text).toString('base64url')\<close> for a text of code units below 128\<close>
  "base64url (a # b # c # rest) =
     (let x = (of_char a :: nat); y = (of_char b :: nat); z = (of_char c :: nat)
      in [b64_digit (x div 4), b64_digit ((x mod 4) * 16 + y div 16),
          b64_digit ((y mod 16) * 4 + z div 64), b64_digit (z mod 64)]) @ base64url rest"
| "base64url [a, b] =
     (let x = (of_char a :: nat); y = (of_char b :: nat)
      in [b64_digit (x div 4), b64_digit ((x mod 4) * 16 + y div 16), b64_digit ((y mod 16) * 4)])"
| "base64url [a] = (let x = (of_char a :: nat) in [b64_digit (x div 4), b64_digit ((x mod 4) * 16)])"
| "base64url [] = []"

definition cursor_payload :: "int \<Rightarrow> json" where
  \<comment> \<open>\<open>{ v: 1, s: seq }\<close>\<close>
  "cursor_payload sq = JObj [(''v'', JNum 1), (''s'', JNum sq)]"

definition encodeCursor :: "int \<Rightarrow> string" where
  "encodeCursor sq = base64url (JSON_stringify (cursor_payload sq))"

datatype js_error = SyntaxError | TypeError

text \<open>
  What \<open>JSON.parse(Buffer.from(cursor, 'base64url').toString('utf8'))\<close> does with an arbitrary
  string belongs to the platform, so the decoder takes it as a parameter: a function from the
  cursor to the parsed value, or to the exception thrown.
\<close>

type_synonym cursor_reader = "string \<Rightarrow> js_error + json"

definition get_prop :: "json \<Rightarrow> string \<Rightarrow> js_error + json option" where
  \<comment> \<open>\<open>decoded.name\<close>: throws on \<open>null\<close>; \<open>None\<close> is \<open>undefined\<close>\<close>
  "get_prop j name =
     (case j of JNull \<Rightarrow> Inl TypeError | JObj kvs \<Rightarrow> Inr (map_of kvs name) | _ \<Rightarrow> Inr None)"

definition decodeCursor_try :: "cursor_reader \<Rightarrow> string \<Rightarrow> js_error + int option" where
  \<comment> \<open>the \<open>try\<close> block of \<open>_decodeCursor\<close>: an exception, a returned number, or falling through\<close>
  "decodeCursor_try reader cursor =
     (case reader cursor of
        Inl e \<Rightarrow> Inl e
      | Inr decoded \<Rightarrow>
          (case get_prop decoded ''v'' of
             Inl e \<Rightarrow> Inl e
           | Inr v \<Rightarrow>
               if v = Some (JNum 1)
               then (case get_prop decoded ''s'' of
                       Inl e \<Rightarrow> Inl e
                     | Inr (Some (JNum n)) \<Rightarrow> Inr (Some n)
                     | Inr _ \<Rightarrow> Inr None)
               else Inr None))"

definition decodeCursor :: "cursor_reader \<Rightarrow> string \<Rightarrow> js_error + int" where
  \<comment> \<open>\<open>_decodeCursor\<close>: \<open>Inl\<close> would be an exception that reaches the caller\<close>
  "decodeCursor reader cursor =
     (case decodeCursor_try reader cursor of
        Inr (Some n) \<Rightarrow> Inr n
      | Inr None \<Rightarrow> Inr 0
      | Inl _ \<Rightarrow> Inr 0)"

section \<open>Reading\<close>

record ReadOptions =
  opt_cursor :: "string option"
  opt_limit :: "int option"
  opt_maxBytes :: "int option"
  opt_levels :: "string list option"
  opt_sources :: "string list option"
  opt_includeStructured :: "bool option"

definition no_options :: ReadOptions where
  \<comment> \<open>\<open>read()\<close>, \<open>read({})\<close>\<close>
  "no_options = \<lparr> opt_cursor = None, opt_limit = None, opt_maxBytes = None, opt_levels = None,
                  opt_sources = None, opt_includeStructured = None \<rparr>"

record ReadResult =
  cursor :: string
  has_more :: bool
  events :: "json list"
  truncated :: bool

record ScanParams =
  effectiveStartSeq :: int
  effectiveLimit :: int
  effectiveMaxBytes :: int
  levels :: "string list option"
  sources :: "string list option"
  includeStructured :: bool

record ScanState =
  result :: ReadResult
  currentBytes :: int
  lastSeq :: int

definition filtered_out :: "string list option \<Rightarrow> string \<Rightarrow> bool" where
  \<comment> \<open>\<open>xs && xs.length > 0 && !xs.includes(x)\<close>\<close>
  "filtered_out f x = (case f of None \<Rightarrow> False | Some xs \<Rightarrow> xs \<noteq> [] \<and> x \<notin> set xs)"

definition eventSize :: "ScanParams \<Rightarrow> LogEvent \<Rightarrow> int" where
  "eventSize p event = js_length (JSON_stringify (toJSON event (includeStructured p))) + 2"

fun scan :: "ScanParams \<Rightarrow> LogEvent list \<Rightarrow> ScanState \<Rightarrow> ScanState" where
  \<comment> \<open>the \<open>for\<close> loop of \<open>read\<close>\<close>
  "scan p [] st = st"
| "scan p (event # rest) st =
     (if seq event \<le> effectiveStartSeq p then scan p rest st
      else if filtered_out (levels p) (level event) then scan p rest st
      else if filtered_out (sources p) (source event) then scan p rest st
      else if currentBytes st + eventSize p event > effectiveMaxBytes p
        then st\<lparr> result := (result st)\<lparr> truncated := True, has_more := True \<rparr> \<rparr>
      else if js_length (events (result st)) \<ge> effectiveLimit p
        then st\<lparr> result := (result st)\<lparr> has_more := True \<rparr> \<rparr>
      else scan p rest
             \<lparr> result = (result st)\<lparr> events := events (result st) @ [toJSON event (includeStructured p)] \<rparr>,
               currentBytes = currentBytes st + eventSize p event,
               lastSeq = seq event \<rparr>)"

definition dropped_warning :: "string \<Rightarrow> int \<Rightarrow> json" where
  \<comment> \<open>the synthetic event for a cursor that points to dropped data\<close>
  "dropped_warning now dropped =
     JObj [(''ts'', JStr now), (''level'', JStr ''warn''), (''source'', JStr ''log_buffer''),
           (''message'', JStr (''Cursor pointed to dropped data. '' @ Number_toString dropped @
              '' events were dropped due to retention policy. Resuming from earliest retained event.'')),
           (''data'', JNull)]"

definition startSeq_of :: "cursor_reader \<Rightarrow> ReadOptions \<Rightarrow> js_error + int" where
  \<comment> \<open>\<open>cursor ? this._decodeCursor(cursor) : 0\<close>\<close>
  "startSeq_of reader opts =
     (case opt_cursor opts of
        None \<Rightarrow> Inr 0
      | Some c \<Rightarrow> if c = [] then Inr 0 else decodeCursor reader c)"

definition limit_of :: "ReadOptions \<Rightarrow> int" where
  "limit_of opts = (case opt_limit opts of None \<Rightarrow> 200 | Some l \<Rightarrow> l)"

definition maxBytes_of :: "ReadOptions \<Rightarrow> int" where
  "maxBytes_of opts = (case opt_maxBytes opts of None \<Rightarrow> 256000 | Some m \<Rightarrow> m)"

definition scan_params :: "LogBuffer \<Rightarrow> ReadOptions \<Rightarrow> int \<Rightarrow> ScanParams" where
  "scan_params b opts startSeq =
     \<lparr> effectiveStartSeq = max startSeq (b_earliestRetainedSeq b),
       effectiveLimit = min (max 1 (limit_of opts)) 1000,
       effectiveMaxBytes = min (max 1000 (maxBytes_of opts)) 1000000,
       levels = opt_levels opts,
       sources = opt_sources opts,
       includeStructured = (case opt_includeStructured opts of None \<Rightarrow> True | Some i \<Rightarrow> i) \<rparr>"

definition initial_events :: "LogBuffer \<Rightarrow> string \<Rightarrow> int \<Rightarrow> json list" where
  \<comment> \<open>\<open>result.events\<close> before the loop\<close>
  "initial_events b now startSeq =
     (if startSeq > 0 \<and> startSeq < b_earliestRetainedSeq b
      then [dropped_warning now (b_droppedCount b)] else [])"

definition read_scan :: "LogBuffer \<Rightarrow> string \<Rightarrow> ReadOptions \<Rightarrow> int \<Rightarrow> ScanState" where
  \<comment> \<open>the state of \<open>read\<close> when its loop ends\<close>
  "read_scan b now opts startSeq =
     (let p = scan_params b opts startSeq;
          evs = initial_events b now startSeq
      in scan p (b_events b)
           \<lparr> result = \<lparr> cursor = [], has_more = False, events = evs, truncated = False \<rparr>,
             currentBytes = js_length (JSON_stringify (JArr evs)),
             lastSeq = effectiveStartSeq p \<rparr>)"

definition read_from :: "LogBuffer \<Rightarrow> string \<Rightarrow> ReadOptions \<Rightarrow> int \<Rightarrow> ReadResult" where
  \<comment> \<open>\<open>read\<close> once the cursor is decoded\<close>
  "read_from b now opts startSeq =
     (let st = read_scan b now opts startSeq;
          r = result st;
          r' = (if \<not> has_more r \<and> b_events b \<noteq> []
                then r\<lparr> has_more := lastSeq st < seq (last (b_events b)) \<rparr> else r)
      in r'\<lparr> cursor := encodeCursor (lastSeq st) \<rparr>)"

definition read :: "cursor_reader \<Rightarrow> string \<Rightarrow> LogBuffer \<Rightarrow> ReadOptions \<Rightarrow> js_error + ReadResult" where
  \<comment> \<open>\<open>LogBuffer.read\<close>; \<open>now\<close> is the clock reading, \<open>Inl\<close> would be an exception\<close>
  "read reader now b opts =
     (case startSeq_of reader opts of
        Inl e \<Rightarrow> Inl e
      | Inr startSeq \<Rightarrow> Inr (read_from b now opts startSeq))"


definition candidate :: "ScanParams \<Rightarrow> LogEvent \<Rightarrow> bool" where
  \<comment> \<open>an event that none of the three \<open>continue\<close> statements of the loop skips\<close>
  "candidate p e =
     (effectiveStartSeq p < seq e \<and> \<not> filtered_out (levels p) (level e) \<and>
      \<not> filtered_out (sources p) (source e))"

definition views :: "ScanParams \<Rightarrow> LogEvent list \<Rightarrow> json list" where
  \<comment> \<open>stored events as \<open>read\<close> returns them\<close>
  "views p es = map (\<lambda>e. toJSON e (includeStructured p)) es"

definition sizes :: "ScanParams \<Rightarrow> LogEvent list \<Rightarrow> int" where
  \<comment> \<open>what a run of stored events adds to \<open>currentBytes\<close>\<close>
  "sizes p es = sum_list (map (eventSize p) es)"

subsection \<open>A reader for cursors\<close>

text \<open>
  One concrete reader, to run \<open>read\<close> on: it decodes base64url (skipping characters outside
  the alphabet) and parses JSON text made of objects, arrays, strings without escapes,
  integers and the three literals; any other text is a \<open>SyntaxError\<close>.
\<close>

fun index_from :: "nat \<Rightarrow> 'a list \<Rightarrow> 'a \<Rightarrow> nat option" where
  \<comment> \<open>the position of the first occurrence, counted from \<open>n\<close>\<close>
  "index_from n [] c = None"
| "index_from n (x # xs) c = (if x = c then Some n else index_from (n + 1) xs c)"

definition b64_value :: "char \<Rightarrow> nat option" where
  \<comment> \<open>the six bits a character stands for, in either base64 alphabet\<close>
  "b64_value c =
     (let n = (of_char c :: nat) in
      if 65 \<le> n \<and> n \<le> 90 then Some (n - 65)
      else if 97 \<le> n \<and> n \<le> 122 then Some (n - 71)
      else if 48 \<le> n \<and> n \<le> 57 then Some (n + 4)
      else if c = CHR ''-'' \<or> c = CHR ''+'' then Some 62
      else if c = CHR ''_'' \<or> c = CHR ''/'' then Some 63
      else None)"

definition byte_char :: "nat \<Rightarrow> char" where
  \<comment> \<open>the character with the given code, bit by bit\<close>
  "byte_char n =
     Char (odd n) (odd (n div 2)) (odd (n div 4)) (odd (n div 8))
          (odd (n div 16)) (odd (n div 32)) (odd (n div 64)) (odd (n div 128))"

fun b64_bytes :: "nat list \<Rightarrow> string" where
  "b64_bytes (a # b # c # d # rest) =
     [byte_char (a * 4 + b div 16), byte_char ((b mod 16) * 16 + c div 4),
      byte_char ((c mod 4) * 64 + d)]
     @ b64_bytes rest"
| "b64_bytes [a, b, c] = [byte_char (a * 4 + b div 16), byte_char ((b mod 16) * 16 + c div 4)]"
| "b64_bytes [a, b] = [byte_char (a * 4 + b div 16)]"
| "b64_bytes _ = []"

definition base64url_decode :: "string \<Rightarrow> string" where
  "base64url_decode s = b64_bytes (List.map_filter b64_value s)"

definition json_ws :: "char \<Rightarrow> bool" where
  "json_ws c = (c \<in> set [CHR 0x20, CHR 0x09, CHR 0x0A, CHR 0x0D])"

definition skip_ws :: "string \<Rightarrow> string" where
  "skip_ws s = dropWhile json_ws s"

definition is_digit :: "char \<Rightarrow> bool" where
  "is_digit c = (c \<in> set ''0123456789'')"

definition digit_value :: "char \<Rightarrow> nat" where
  "digit_value c = (case index_from 0 ''0123456789'' c of Some d \<Rightarrow> d | None \<Rightarrow> 0)"

definition parse_nat :: "string \<Rightarrow> (nat \<times> string) option" where
  \<comment> \<open>\<open>0\<close>, or digits that do not start with \<open>0\<close>; no fraction and no exponent may follow\<close>
  "parse_nat s =
     (let ds = takeWhile is_digit s; r = dropWhile is_digit s in
      if ds = [] \<or> (hd ds = CHR ''0'' \<and> length ds > 1) then None
      else if r \<noteq> [] \<and> hd r \<in> set ''.eE'' then None
      else Some (foldl (\<lambda>n c. 10 * n + digit_value c) 0 ds, r))"

definition parse_string :: "string \<Rightarrow> (string \<times> string) option" where
  \<comment> \<open>the text after an opening quote, up to the closing one\<close>
  "parse_string s =
     (let body = takeWhile (\<lambda>c. c \<noteq> CHR 0x22) s; r = dropWhile (\<lambda>c. c \<noteq> CHR 0x22) s in
      if r = [] \<or> list_ex (\<lambda>c. c = CHR 0x5C \<or> (of_char c :: nat) < 32) body then None
      else Some (body, tl r))"

fun parse_value :: "nat \<Rightarrow> string \<Rightarrow> (json \<times> string) option"
  and parse_elements :: "nat \<Rightarrow> string \<Rightarrow> (json list \<times> string) option"
  and parse_members :: "nat \<Rightarrow> string \<Rightarrow> ((string \<times> json) list \<times> string) option"
where
  "parse_value 0 s = None"
| "parse_value (Suc n) s =
     (case skip_ws s of
        [] \<Rightarrow> None
      | c # cs \<Rightarrow>
          if c = CHR ''{'' then
            (case skip_ws cs of
               [] \<Rightarrow> None
             | c' # cs' \<Rightarrow>
                 if c' = CHR ''}'' then Some (JObj [], cs')
                 else map_option (\<lambda>(kvs, r). (JObj kvs, r)) (parse_members n cs))
          else if c = CHR ''['' then
            (case skip_ws cs of
               [] \<Rightarrow> None
             | c' # cs' \<Rightarrow>
                 if c' = CHR '']'' then Some (JArr [], cs')
                 else map_option (\<lambda>(xs, r). (JArr xs, r)) (parse_elements n cs))
          else if c = CHR 0x22 then map_option (\<lambda>(t, r). (JStr t, r)) (parse_string cs)
          else if is_prefix ''null'' (c # cs) then Some (JNull, drop 4 (c # cs))
          else if is_prefix ''true'' (c # cs) then Some (JBool True, drop 4 (c # cs))
          else if is_prefix ''false'' (c # cs) then Some (JBool False, drop 5 (c # cs))
          else if c = CHR ''-'' then map_option (\<lambda>(m, r). (JNum (- int m), r)) (parse_nat cs)
          else map_option (\<lambda>(m, r). (JNum (int m), r)) (parse_nat (c # cs)))"
| "parse_elements 0 s = None"
| "parse_elements (Suc n) s =
     (case parse_value n s of
        None \<Rightarrow> None
      | Some (v, r) \<Rightarrow>
          (case skip_ws r of
             [] \<Rightarrow> None
           | c # cs \<Rightarrow>
               if c = CHR '','' then map_option (\<lambda>(vs, r'). (v # vs, r')) (parse_elements n cs)
               else if c = CHR '']'' then Some ([v], cs)
               else None))"
| "parse_members 0 s = None"
| "parse_members (Suc n) s =
     (case skip_ws s of
        [] \<Rightarrow> None
      | q # qs \<Rightarrow>
          if q \<noteq> CHR 0x22 then None
          else
            (case parse_string qs of
               None \<Rightarrow> None
             | Some (k, r) \<Rightarrow>
                 (case skip_ws r of
                    [] \<Rightarrow> None
                  | c # cs \<Rightarrow>
                      if c \<noteq> CHR '':'' then None
                      else
                        (case parse_value n cs of
                           None \<Rightarrow> None
                         | Some (v, r') \<Rightarrow>
                             (case skip_ws r' of
                                [] \<Rightarrow> None
                              | c' # cs' \<Rightarrow>
                                  if c' = CHR '','' then
                                    map_option (\<lambda>(kvs, r''). ((k, v) # kvs, r'')) (parse_members n cs')
                                  else if c' = CHR ''}'' then Some ([(k, v)], cs')
                                  else None)))))"

definition JSON_parse :: "string \<Rightarrow> js_error + json" where
  "JSON_parse s =
     (case parse_value (Suc (length s)) s of
        None \<Rightarrow> Inl SyntaxError
      | Some (v, r) \<Rightarrow> if skip_ws r = [] then Inr v else Inl SyntaxError)"

definition read_cursor :: cursor_reader where
  "read_cursor c = JSON_parse (base64url_decode c)"

section \<open>Histories of a buffer\<close>

datatype op =
    Append string string string string json  \<comment> \<open>clock reading, level, source, message, data\<close>
  | Clear

fun exec :: "LogBuffer \<Rightarrow> op \<Rightarrow> LogBuffer" where
  "exec b (Append now lv src msg d) = snd (append b now lv src msg d)"
| "exec b Clear = clear b"

definition run :: "LogBuffer \<Rightarrow> op list \<Rightarrow> LogBuffer" where
  \<comment> \<open>the buffer after a sequence of calls\<close>
  "run b ops = foldl exec b ops"

fun returned :: "LogBuffer \<Rightarrow> op list \<Rightarrow> int list" where
  \<comment> \<open>what the \<open>append\<close> calls of a sequence of calls return, in call order\<close>
  "returned b [] = []"
| "returned b (Append now lv src msg d # ops) =
     fst (append b now lv src msg d) # returned (snd (append b now lv src msg d)) ops"
| "returned b (Clear # ops) = returned (clear b) ops"

fun is_append :: "op \<Rightarrow> bool" where
  "is_append (Append now lv src msg d) = True"
| "is_append Clear = False"

definition consistent :: "LogBuffer \<Rightarrow> bool" where
  \<comment> \<open>what every history keeps true of the buffer's fields\<close>
  "consistent b =
     (b_totalBytes b = sum_list (map e_size (b_events b)) \<and>
      sorted_wrt (<) (map seq (b_events b)) \<and>
      list_all (\<lambda>e. b_earliestRetainedSeq b \<le> seq e \<and> seq e \<le> b_seq b \<and> 100 \<le> e_size e) (b_events b) \<and>
      0 \<le> b_earliestRetainedSeq b \<and> b_earliestRetainedSeq b \<le> b_seq b \<and>
      0 \<le> b_droppedCount b)"


section \<open>Retention and sequence numbers\<close>

lemma enforceRetention_seq: "b_seq (enforceRetention b) = b_seq b"
proof (induction b rule: enforceRetention.induct)
  case (1 b)
  show ?case
    by (subst enforceRetention.simps) (simp add: "1.IH" split: list.split)
qed

lemma enforceRetention_config: "b_config (enforceRetention b) = b_config b"
proof (induction b rule: enforceRetention.induct)
  case (1 b)
  show ?case
    by (subst enforceRetention.simps) (simp add: "1.IH" split: list.split)
qed

lemma calculateSize_ge: "100 \<le> calculateSize t lv src msg d"
  by (simp add: calculateSize_def js_length_def Let_def)

lemma append_event_seq: "seq (append_event b now lv src msg d) = b_seq b + 1"
  by (simp add: append_event_def new_LogEvent_def Let_def)

lemma append_event_size: "100 \<le> e_size (append_event b now lv src msg d)"
  by (simp add: append_event_def new_LogEvent_def Let_def calculateSize_ge)

lemma consistent_enforceRetention: "consistent b \<Longrightarrow> consistent (enforceRetention b)"
proof (induction b rule: enforceRetention.induct)
  case (1 b)
  show ?case
  proof (cases "js_length (b_events b) > maxEvents (b_config b) \<or> b_totalBytes b > maxBytes (b_config b)")
    case False
    then show ?thesis using "1.prems" by (subst enforceRetention.simps) simp
  next
    case over: True
    show ?thesis
    proof (cases "b_events b")
      case Nil
      then show ?thesis using "1.prems" over by (subst enforceRetention.simps) simp
    next
      case (Cons dropped rest)
      let ?b' = "b\<lparr> b_events := rest,
                      b_totalBytes := b_totalBytes b - e_size dropped,
                      b_droppedCount := b_droppedCount b + 1,
                      b_earliestRetainedSeq := (case rest of [] \<Rightarrow> b_seq b | e # _ \<Rightarrow> seq e) \<rparr>"
      have "consistent ?b'"
        using "1.prems" Cons
        by (cases rest) (auto simp: consistent_def list_all_iff)
      then have "consistent (enforceRetention ?b')"
        using "1.IH" [OF over Cons] by simp
      then show ?thesis using over Cons by (subst enforceRetention.simps) simp
    qed
  qed
qed

lemma consistent_new: "consistent (new_LogBuffer me mb)"
  by (simp add: consistent_def new_LogBuffer_def)

lemma consistent_clear: "consistent b \<Longrightarrow> consistent (clear b)"
  by (simp add: consistent_def clear_def)

lemma consistent_append: "consistent b \<Longrightarrow> consistent (snd (append b now lv src msg d))"
proof -
  assume c: "consistent b"
  let ?e = "append_event b now lv src msg d"
  have "consistent (b\<lparr> b_seq := b_seq b + 1, b_events := b_events b @ [?e],
                       b_totalBytes := b_totalBytes b + e_size ?e \<rparr>)"
    using c append_event_size [of b now lv src msg d]
    by (auto simp: consistent_def list_all_iff sorted_wrt_append append_event_seq)
  then show ?thesis
    by (simp add: append_def Let_def consistent_enforceRetention)
qed

lemma consistent_exec: "consistent b \<Longrightarrow> consistent (exec b x)"
  by (cases x) (simp_all add: consistent_append consistent_clear)

lemma consistent_run: "consistent b \<Longrightarrow> consistent (run b ops)"
  unfolding run_def by (induction ops arbitrary: b) (simp_all add: consistent_exec)

lemma enforceRetention_bounded:
  "consistent b \<Longrightarrow> 0 \<le> maxEvents (b_config b) \<Longrightarrow> 0 \<le> maxBytes (b_config b) \<Longrightarrow>
   js_length (b_events (enforceRetention b)) \<le> maxEvents (b_config b) \<and>
   b_totalBytes (enforceRetention b) \<le> maxBytes (b_config b)"
proof (induction b rule: enforceRetention.induct)
  case (1 b)
  show ?case
  proof (cases "js_length (b_events b) > maxEvents (b_config b) \<or> b_totalBytes b > maxBytes (b_config b)")
    case False
    then show ?thesis by (subst (1 2) enforceRetention.simps) auto
  next
    case over: True
    show ?thesis
    proof (cases "b_events b")
      case Nil
      then show ?thesis using "1.prems" over by (simp add: consistent_def js_length_def)
    next
      case (Cons dropped rest)
      let ?b' = "b\<lparr> b_events := rest,
                      b_totalBytes := b_totalBytes b - e_size dropped,
                      b_droppedCount := b_droppedCount b + 1,
                      b_earliestRetainedSeq := (case rest of [] \<Rightarrow> b_seq b | e # _ \<Rightarrow> seq e) \<rparr>"
      have "consistent ?b'"
        using "1.prems"(1) Cons
        by (cases rest) (auto simp: consistent_def list_all_iff)
      then have "js_length (b_events (enforceRetention ?b')) \<le> maxEvents (b_config ?b') \<and>
                 b_totalBytes (enforceRetention ?b') \<le> maxBytes (b_config ?b')"
        using "1.IH" [OF over Cons] "1.prems" by simp
      then show ?thesis using over Cons by (subst (1 2) enforceRetention.simps) simp
    qed
  qed
qed


lemma append_fst: "fst (append b now lv src msg d) = b_seq b + 1"
  by (simp add: append_def Let_def)

lemma append_seq: "b_seq (snd (append b now lv src msg d)) = b_seq b + 1"
  by (simp add: append_def Let_def enforceRetention_seq)

lemma append_config: "b_config (snd (append b now lv src msg d)) = b_config b"
  by (simp add: append_def Let_def enforceRetention_config)

lemma exec_config: "b_config (exec b x) = b_config b"
  by (cases x) (simp_all add: append_config clear_def)

lemma run_config: "b_config (run b ops) = b_config b"
  unfolding run_def by (induction ops arbitrary: b) (simp_all add: exec_config)

lemma returned_from:
  "returned b ops = map (\<lambda>k. b_seq b + int k) [1 ..< Suc (length (filter is_append ops))]"
proof (induction ops arbitrary: b)
  case Nil
  then show ?case by simp
next
  case (Cons x ops)
  show ?case
  proof (cases x)
    case (Append now lv src msg d)
    let ?n = "length (filter is_append ops)"
    have "[1 ..< Suc (Suc ?n)] = 1 # map Suc [1 ..< Suc ?n]"
      by (simp add: upt_conv_Cons map_Suc_upt del: upt_Suc)
    then show ?thesis
      using Append by (simp add: Cons.IH append_fst append_seq o_def del: upt_Suc)
  next
    case Clear
    then show ?thesis by (simp add: Cons.IH clear_def)
  qed
qed

text \<open>
  Claim C2. On one buffer, the sequence numbers that \<open>N\<close> \<open>append\<close> calls return, however the
  calls are interleaved with \<open>clear()\<close>, are exactly \<open>1, 2, ..., N\<close> in call order: strictly
  increasing, without gaps, and never reused, since \<open>clear\<close> leaves the counter alone.
\<close>

theorem C2_sequence_numbers:
  "returned (new_LogBuffer me mb) ops = map int [1 ..< Suc (length (filter is_append ops))] \<and>
   sorted_wrt (<) (returned (new_LogBuffer me mb) ops) \<and>
   distinct (returned (new_LogBuffer me mb) ops)"
proof -
  have eq: "returned (new_LogBuffer me mb) ops = map int [1 ..< Suc (length (filter is_append ops))]"
    by (simp add: returned_from new_LogBuffer_def del: upt_Suc)
  have "sorted_wrt (<) (map int [1 ..< Suc (length (filter is_append ops))])"
    by (simp add: sorted_wrt_map del: upt_Suc)
  moreover have "distinct (map int [1 ..< Suc (length (filter is_append ops))])"
    by (simp add: distinct_map inj_on_def del: upt_Suc)
  ultimately show ?thesis using eq by simp
qed

theorem C2_sequence_numbers_witness:
  "returned (new_LogBuffer None None)
     [Append ''t1'' ''info'' ''test'' ''Message 1'' JNull, Clear,
      Append ''t2'' ''info'' ''test'' ''New message'' JNull] = [1, 2]"
proof -
  have "length (filter is_append
     [Append ''t1'' ''info'' ''test'' ''Message 1'' JNull, Clear,
      Append ''t2'' ''info'' ''test'' ''New message'' JNull]) = 2"
    by simp
  then show ?thesis
    using C2_sequence_numbers [of None None
     "[Append ''t1'' ''info'' ''test'' ''Message 1'' JNull, Clear,
      Append ''t2'' ''info'' ''test'' ''New message'' JNull]"]
    by (simp add: upt_conv_Cons del: upt_Suc)
qed

text \<open>
  Claim C1 says that after every \<open>append\<close> the buffer holds at most \<open>max_events\<close> events and
  tracks at most \<open>max_bytes\<close> bytes, for every configuration. The retention loop stops at an
  empty buffer (\<open>else break\<close>), so a negative bound is not met: with \<open>maxEvents = -1\<close> the
  buffer is empty after the call, and \<open>0 \<le> -1\<close> is false.
\<close>

theorem C1_counterexample:
  "\<not> (eventCount (stats (snd (append (new_LogBuffer (Some (- 1)) None)
          ''2026-01-01T00:00:00.000Z'' ''info'' ''test'' ''hello'' JNull)))
       \<le> maxEvents (b_config (new_LogBuffer (Some (- 1)) None)))"
  by (simp add: stats_def js_length_def new_LogBuffer_def)

text \<open>
  Claim C1, amended. For every configuration whose two bounds are not negative, and after
  every sequence of \<open>append\<close> and \<open>clear\<close> calls, an \<open>append\<close> returns with at most
  \<open>maxEvents\<close> events retained and a tracked byte total of at most \<open>maxBytes\<close>: this is what
  \<open>stats()\<close> reports as \<open>eventCount\<close> and \<open>totalBytes\<close>.
\<close>

theorem C1_retention_bounds:
  assumes "0 \<le> maxEvents (b_config (new_LogBuffer me mb))"
    and "0 \<le> maxBytes (b_config (new_LogBuffer me mb))"
  shows "eventCount (stats (snd (append (run (new_LogBuffer me mb) ops) now lv src msg d)))
           \<le> maxEvents (b_config (new_LogBuffer me mb)) \<and>
         totalBytes (stats (snd (append (run (new_LogBuffer me mb) ops) now lv src msg d)))
           \<le> maxBytes (b_config (new_LogBuffer me mb))"
proof -
  let ?b = "run (new_LogBuffer me mb) ops"
  let ?e = "append_event ?b now lv src msg d"
  let ?b1 = "?b\<lparr> b_seq := b_seq ?b + 1, b_events := b_events ?b @ [?e],
                  b_totalBytes := b_totalBytes ?b + e_size ?e \<rparr>"
  have c: "consistent ?b" by (simp add: consistent_run consistent_new)
  have c1: "consistent ?b1"
    using c append_event_size [of ?b now lv src msg d]
    by (auto simp: consistent_def list_all_iff sorted_wrt_append append_event_seq)
  have cfg: "b_config ?b1 = b_config (new_LogBuffer me mb)" by (simp add: run_config)
  show ?thesis
    using enforceRetention_bounded [OF c1] assms cfg
    by (simp add: append_def Let_def stats_def)
qed

theorem C1_retention_bounds_witness:
  "0 \<le> maxEvents (b_config (new_LogBuffer (Some 2) None)) \<and>
   0 \<le> maxBytes (b_config (new_LogBuffer (Some 2) None)) \<and>
   eventCount (stats (snd (append (run (new_LogBuffer (Some 2) None)
        [Append ''t1'' ''info'' ''test'' ''Message 1'' JNull,
         Append ''t2'' ''info'' ''test'' ''Message 2'' JNull]) ''t3'' ''info'' ''test'' ''Message 3'' JNull)))
     \<le> maxEvents (b_config (new_LogBuffer (Some 2) None)) \<and>
   totalBytes (stats (snd (append (run (new_LogBuffer (Some 2) None)
        [Append ''t1'' ''info'' ''test'' ''Message 1'' JNull,
         Append ''t2'' ''info'' ''test'' ''Message 2'' JNull]) ''t3'' ''info'' ''test'' ''Message 3'' JNull)))
     \<le> maxBytes (b_config (new_LogBuffer (Some 2) None))"
proof -
  have h1: "0 \<le> maxEvents (b_config (new_LogBuffer (Some 2) None))"
    by (simp add: new_LogBuffer_def)
  have h2: "0 \<le> maxBytes (b_config (new_LogBuffer (Some 2) None))"
    by (simp add: new_LogBuffer_def DEFAULT_CONFIG_def)
  show ?thesis
    using h1 h2 C1_retention_bounds [OF h1 h2] by blast
qed

section \<open>An append that exceeds the byte bound by itself\<close>

lemma enforceRetention_empty: "b_events b = [] \<Longrightarrow> enforceRetention b = b"
  by (subst enforceRetention.simps) simp

lemma enforceRetention_evicts_all:
  "b_events b = es @ [e] \<Longrightarrow> b_totalBytes b = sum_list (map e_size (es @ [e])) \<Longrightarrow>
   list_all (\<lambda>x. 0 \<le> e_size x) es \<Longrightarrow> maxBytes (b_config b) < e_size e \<Longrightarrow>
   enforceRetention b =
     b\<lparr> b_events := [], b_totalBytes := 0,
        b_droppedCount := b_droppedCount b + int (length es) + 1,
        b_earliestRetainedSeq := b_seq b \<rparr>"
proof (induction es arbitrary: b)
  case Nil
  then show ?case
    by (subst enforceRetention.simps) (simp add: enforceRetention_empty)
next
  case (Cons x xs)
  let ?b' = "b\<lparr> b_events := xs @ [e],
                  b_totalBytes := b_totalBytes b - e_size x,
                  b_droppedCount := b_droppedCount b + 1,
                  b_earliestRetainedSeq := (case xs @ [e] of [] \<Rightarrow> b_seq b | y # _ \<Rightarrow> seq y) \<rparr>"
  have nonneg: "0 \<le> sum_list (map e_size xs)"
    using Cons.prems(3) by (intro sum_list_nonneg) (auto simp: list_all_iff)
  have over: "maxBytes (b_config b) < b_totalBytes b"
    using Cons.prems nonneg by simp
  have step: "enforceRetention b = enforceRetention ?b'"
    using over Cons.prems(1) by (subst enforceRetention.simps) simp
  have "enforceRetention ?b' =
     ?b'\<lparr> b_events := [], b_totalBytes := 0,
        b_droppedCount := b_droppedCount ?b' + int (length xs) + 1,
        b_earliestRetainedSeq := b_seq ?b' \<rparr>"
    using Cons.prems by (intro Cons.IH) simp_all
  then show ?case using step by simp
qed

text \<open>
  Claim C10. When an \<open>append\<close> creates an event whose size estimate alone exceeds
  \<open>maxBytes\<close>, retention evicts every retained event, the new one included: the call still
  returns the new sequence number, and afterwards the buffer is empty, the dropped counter has
  grown by the number of events held before plus one, the tracked byte total is zero, and
  \<open>earliestRetainedSeq\<close> equals the sequence counter.
\<close>

theorem C10_oversized_append:
  assumes "maxBytes (b_config (run (new_LogBuffer me mb) ops))
             < e_size (append_event (run (new_LogBuffer me mb) ops) now lv src msg d)"
  shows "fst (append (run (new_LogBuffer me mb) ops) now lv src msg d)
           = b_seq (run (new_LogBuffer me mb) ops) + 1 \<and>
         stats (snd (append (run (new_LogBuffer me mb) ops) now lv src msg d)) =
           \<lparr> eventCount = 0, totalBytes = 0,
             droppedCount = b_droppedCount (run (new_LogBuffer me mb) ops)
                            + js_length (b_events (run (new_LogBuffer me mb) ops)) + 1,
             currentSeq = b_seq (run (new_LogBuffer me mb) ops) + 1,
             earliestRetainedSeq = b_seq (run (new_LogBuffer me mb) ops) + 1 \<rparr> \<and>
         b_events (snd (append (run (new_LogBuffer me mb) ops) now lv src msg d)) = []"
proof -
  let ?b = "run (new_LogBuffer me mb) ops"
  let ?e = "append_event ?b now lv src msg d"
  let ?b1 = "?b\<lparr> b_seq := b_seq ?b + 1, b_events := b_events ?b @ [?e],
                  b_totalBytes := b_totalBytes ?b + e_size ?e \<rparr>"
  have c: "consistent ?b" by (simp add: consistent_run consistent_new)
  have "enforceRetention ?b1 =
     ?b1\<lparr> b_events := [], b_totalBytes := 0,
        b_droppedCount := b_droppedCount ?b1 + int (length (b_events ?b)) + 1,
        b_earliestRetainedSeq := b_seq ?b1 \<rparr>"
  proof (rule enforceRetention_evicts_all)
    show "b_events ?b1 = b_events ?b @ [?e]" by simp
    show "b_totalBytes ?b1 = sum_list (map e_size (b_events ?b @ [?e]))"
      using c by (simp add: consistent_def)
    show "list_all (\<lambda>x. 0 \<le> e_size x) (b_events ?b)"
      using c by (auto simp: consistent_def list_all_iff)
    show "maxBytes (b_config ?b1) < e_size ?e" using assms by simp
  qed
  then show ?thesis
    by (simp add: append_def Let_def stats_def js_length_def)
qed

theorem C10_oversized_append_witness:
  "maxBytes (b_config (run (new_LogBuffer None (Some 50)) []))
     < e_size (append_event (run (new_LogBuffer None (Some 50)) []) ''t1'' ''info'' ''test'' ''hello'' JNull) \<and>
   fst (append (run (new_LogBuffer None (Some 50)) []) ''t1'' ''info'' ''test'' ''hello'' JNull) = 1 \<and>
   stats (snd (append (run (new_LogBuffer None (Some 50)) []) ''t1'' ''info'' ''test'' ''hello'' JNull)) =
     \<lparr> eventCount = 0, totalBytes = 0, droppedCount = 1, currentSeq = 1, earliestRetainedSeq = 1 \<rparr>"
proof -
  have h: "maxBytes (b_config (run (new_LogBuffer None (Some 50)) []))
     < e_size (append_event (run (new_LogBuffer None (Some 50)) []) ''t1'' ''info'' ''test'' ''hello'' JNull)"
    using append_event_size [of "run (new_LogBuffer None (Some 50)) []" "''t1''" "''info''" "''test''" "''hello''" JNull]
    by (simp add: run_def new_LogBuffer_def)
  show ?thesis
    using h C10_oversized_append [OF h]
    by (simp add: run_def new_LogBuffer_def js_length_def)
qed

section \<open>The loop of read\<close>

lemma eventSize_pos: "2 \<le> eventSize p e"
  by (simp add: eventSize_def js_length_def)

lemma sizes_simps [simp]:
  "sizes p [] = 0" "sizes p (e # es) = eventSize p e + sizes p es"
  "sizes p (xs @ ys) = sizes p xs + sizes p ys"
  by (simp_all add: sizes_def)

lemma views_simps [simp]:
  "views p [] = []" "views p (e # es) = toJSON e (includeStructured p) # views p es"
  "views p (xs @ ys) = views p xs @ views p ys" "length (views p es) = length es"
  by (simp_all add: views_def)

lemma sizes_nonneg: "0 \<le> sizes p es"
proof (induction es)
  case Nil
  show ?case by simp
next
  case (Cons e es)
  then show ?case using eventSize_pos [of p e] by simp
qed

lemma scan_skip: "\<not> candidate p e \<Longrightarrow> scan p (e # rest) st = scan p rest st"
  by (auto simp: candidate_def)

lemma scan_truncate:
  "candidate p e \<Longrightarrow> effectiveMaxBytes p < currentBytes st + eventSize p e \<Longrightarrow>
   scan p (e # rest) st = st\<lparr> result := (result st)\<lparr> truncated := True, has_more := True \<rparr> \<rparr>"
  by (auto simp: candidate_def)

lemma scan_limit:
  "candidate p e \<Longrightarrow> currentBytes st + eventSize p e \<le> effectiveMaxBytes p \<Longrightarrow>
   effectiveLimit p \<le> js_length (events (result st)) \<Longrightarrow>
   scan p (e # rest) st = st\<lparr> result := (result st)\<lparr> has_more := True \<rparr> \<rparr>"
  by (auto simp: candidate_def)

lemma scan_admit:
  "candidate p e \<Longrightarrow> currentBytes st + eventSize p e \<le> effectiveMaxBytes p \<Longrightarrow>
   js_length (events (result st)) < effectiveLimit p \<Longrightarrow>
   scan p (e # rest) st =
     scan p rest
       \<lparr> result = (result st)\<lparr> events := events (result st) @ [toJSON e (includeStructured p)] \<rparr>,
         currentBytes = currentBytes st + eventSize p e,
         lastSeq = seq e \<rparr>"
  by (auto simp: candidate_def)

lemmas scan_steps = scan_skip scan_truncate scan_limit scan_admit

lemma scan_cases:
  assumes "\<not> candidate p e \<Longrightarrow> P"
    and "candidate p e \<Longrightarrow> effectiveMaxBytes p < currentBytes st + eventSize p e \<Longrightarrow> P"
    and "candidate p e \<Longrightarrow> currentBytes st + eventSize p e \<le> effectiveMaxBytes p \<Longrightarrow>
         effectiveLimit p \<le> js_length (events (result st)) \<Longrightarrow> P"
    and "candidate p e \<Longrightarrow> currentBytes st + eventSize p e \<le> effectiveMaxBytes p \<Longrightarrow>
         js_length (events (result st)) < effectiveLimit p \<Longrightarrow> P"
  shows P
  using assms by (meson not_le)

declare scan.simps(2) [simp del]

lemma scan_flags:
  "(truncated (result st) \<longrightarrow> has_more (result st)) \<Longrightarrow>
   (truncated (result (scan p es st)) \<longrightarrow> has_more (result (scan p es st)))"
proof (induction es arbitrary: st)
  case Nil
  then show ?case by simp
next
  case (Cons e es)
  show ?case
    by (rule scan_cases [where p = p and e = e and st = st]) (use Cons in \<open>simp_all add: scan_steps\<close>)
qed

lemma scan_length:
  "js_length (events (result st)) \<le> effectiveLimit p \<Longrightarrow>
   js_length (events (result (scan p es st))) \<le> effectiveLimit p"
proof (induction es arbitrary: st)
  case Nil
  then show ?case by simp
next
  case (Cons e es)
  show ?case
  proof (rule scan_cases [where p = p and e = e and st = st])
    assume a: "candidate p e" "currentBytes st + eventSize p e \<le> effectiveMaxBytes p"
      "js_length (events (result st)) < effectiveLimit p"
    show ?thesis
      unfolding scan_admit [OF a]
      by (rule Cons.IH) (use a in \<open>simp add: js_length_def\<close>)
  qed (use Cons in \<open>simp_all add: scan_steps\<close>)
qed

lemma scan_not_truncated:
  "\<not> truncated (result st) \<Longrightarrow>
   currentBytes st + sizes p (filter (candidate p) es) \<le> effectiveMaxBytes p \<Longrightarrow>
   \<not> truncated (result (scan p es st))"
proof (induction es arbitrary: st)
  case Nil
  then show ?case by simp
next
  case (Cons e es)
  show ?case
  proof (rule scan_cases [where p = p and e = e and st = st])
    assume a: "candidate p e" "effectiveMaxBytes p < currentBytes st + eventSize p e"
    then show ?thesis
      using Cons.prems sizes_nonneg [of p "filter (candidate p) es"] by simp
  next
    assume a: "candidate p e" "currentBytes st + eventSize p e \<le> effectiveMaxBytes p"
      "js_length (events (result st)) < effectiveLimit p"
    show ?thesis
      unfolding scan_admit [OF a]
      by (rule Cons.IH) (use a Cons.prems in \<open>simp_all add: add.assoc\<close>)
  qed (use Cons in \<open>simp_all add: scan_steps\<close>)
qed

lemma scan_prefix:
  "\<exists>k. events (result (scan p es st)) = events (result st) @ views p (take k (filter (candidate p) es)) \<and>
       currentBytes (scan p es st) = currentBytes st + sizes p (take k (filter (candidate p) es)) \<and>
       lastSeq (scan p es st) =
         (if take k (filter (candidate p) es) = [] then lastSeq st
          else seq (last (take k (filter (candidate p) es)))) \<and>
       (take k (filter (candidate p) es) \<noteq> [] \<longrightarrow>
          currentBytes (scan p es st) \<le> effectiveMaxBytes p \<and>
          js_length (events (result (scan p es st))) \<le> effectiveLimit p)"
  (is "\<exists>k. ?Q k es st")
proof (induction es arbitrary: st)
  case Nil
  show ?case by simp
next
  case (Cons e es)
  show ?case
  proof (rule scan_cases [where p = p and e = e and st = st])
    assume a: "\<not> candidate p e"
    from Cons.IH [of st] obtain k where "?Q k es st" ..
    then have "?Q k (e # es) st" using a by (auto simp: scan_skip)
    then show ?thesis ..
  next
    assume a: "candidate p e" "effectiveMaxBytes p < currentBytes st + eventSize p e"
    have "?Q 0 (e # es) st" by (simp add: scan_truncate [OF a])
    then show ?thesis ..
  next
    assume a: "candidate p e" "currentBytes st + eventSize p e \<le> effectiveMaxBytes p"
      "effectiveLimit p \<le> js_length (events (result st))"
    have "?Q 0 (e # es) st" by (simp add: scan_limit [OF a])
    then show ?thesis ..
  next
    assume a: "candidate p e" "currentBytes st + eventSize p e \<le> effectiveMaxBytes p"
      "js_length (events (result st)) < effectiveLimit p"
    let ?st = "\<lparr> result = (result st)\<lparr> events := events (result st) @ [toJSON e (includeStructured p)] \<rparr>,
         currentBytes = currentBytes st + eventSize p e, lastSeq = seq e \<rparr>"
    from Cons.IH [of ?st] obtain k where k: "?Q k es ?st" ..
    have "?Q (Suc k) (e # es) st"
      using k a by (auto simp: scan_admit [OF a] js_length_def)
    then show ?thesis ..
  qed
qed


lemma scan_exact:
  "k \<le> length (filter (candidate p) es) \<Longrightarrow>
   currentBytes st + sizes p (take k (filter (candidate p) es)) \<le> effectiveMaxBytes p \<Longrightarrow>
   js_length (events (result st)) + int k \<le> effectiveLimit p \<Longrightarrow>
   (k < length (filter (candidate p) es) \<Longrightarrow>
      effectiveMaxBytes p < currentBytes st + sizes p (take (Suc k) (filter (candidate p) es)) \<or>
      effectiveLimit p \<le> js_length (events (result st)) + int k) \<Longrightarrow>
   events (result (scan p es st)) = events (result st) @ views p (take k (filter (candidate p) es)) \<and>
   lastSeq (scan p es st) =
     (if k = 0 then lastSeq st else seq (last (take k (filter (candidate p) es)))) \<and>
   truncated (result (scan p es st)) =
     (truncated (result st) \<or>
      (k < length (filter (candidate p) es) \<and>
       effectiveMaxBytes p < currentBytes st + sizes p (take (Suc k) (filter (candidate p) es)))) \<and>
   has_more (result (scan p es st)) = (has_more (result st) \<or> k < length (filter (candidate p) es))"
proof (induction es arbitrary: st k)
  case Nil
  then show ?case by simp
next
  case (Cons e es)
  let ?cs = "filter (candidate p) es"
  show ?case
  proof (cases "candidate p e")
    case False
    then show ?thesis
      using Cons.IH [of k st] Cons.prems by (simp add: scan_skip)
  next
    case cand: True
    show ?thesis
    proof (cases k)
      case 0
      show ?thesis
      proof (cases "effectiveMaxBytes p < currentBytes st + eventSize p e")
        case True
        then show ?thesis using cand 0 by (simp add: scan_truncate)
      next
        case False
        then have fit: "currentBytes st + eventSize p e \<le> effectiveMaxBytes p" by simp
        have "effectiveLimit p \<le> js_length (events (result st))"
          using Cons.prems(4) cand 0 False by simp
        then show ?thesis using cand 0 fit by (simp add: scan_limit)
      qed
    next
      case (Suc k')
      let ?st = "\<lparr> result = (result st)\<lparr> events := events (result st) @ [toJSON e (includeStructured p)] \<rparr>,
         currentBytes = currentBytes st + eventSize p e, lastSeq = seq e \<rparr>"
      have fit: "currentBytes st + eventSize p e \<le> effectiveMaxBytes p"
        using Cons.prems(2) cand Suc sizes_nonneg [of p "take k' ?cs"] by simp
      have room: "js_length (events (result st)) < effectiveLimit p"
        using Cons.prems(3) Suc by simp
      have step: "scan p (e # es) st = scan p es ?st"
        using cand fit room by (rule scan_admit)
      have k': "k' \<le> length ?cs" using Cons.prems(1) cand Suc by simp
      have ih: "events (result (scan p es ?st)) = events (result ?st) @ views p (take k' ?cs) \<and>
         lastSeq (scan p es ?st) = (if k' = 0 then lastSeq ?st else seq (last (take k' ?cs))) \<and>
         truncated (result (scan p es ?st)) =
           (truncated (result ?st) \<or>
            (k' < length ?cs \<and> effectiveMaxBytes p < currentBytes ?st + sizes p (take (Suc k') ?cs))) \<and>
         has_more (result (scan p es ?st)) = (has_more (result ?st) \<or> k' < length ?cs)"
      proof (rule Cons.IH)
        show "k' \<le> length ?cs" by (rule k')
        show "currentBytes ?st + sizes p (take k' ?cs) \<le> effectiveMaxBytes p"
          using Cons.prems(2) cand Suc by (simp add: add.assoc)
        show "js_length (events (result ?st)) + int k' \<le> effectiveLimit p"
          using Cons.prems(3) Suc by (simp add: js_length_def)
        show "effectiveMaxBytes p < currentBytes ?st + sizes p (take (Suc k') ?cs) \<or>
              effectiveLimit p \<le> js_length (events (result ?st)) + int k'"
          if "k' < length ?cs"
          using Cons.prems(4) that cand Suc by (auto simp: js_length_def add.assoc)
      qed
      have nonempty: "k' \<noteq> 0 \<Longrightarrow> take k' ?cs \<noteq> []"
        using k' by auto
      show ?thesis
        using ih cand Suc nonempty by (simp add: step add.assoc)
    qed
  qed
qed

lemma scan_truncated_by_bytes:
  "truncated (result (scan p es st)) \<Longrightarrow> \<not> truncated (result st) \<Longrightarrow>
   \<exists>k < length (filter (candidate p) es).
     events (result (scan p es st)) = events (result st) @ views p (take k (filter (candidate p) es)) \<and>
     effectiveMaxBytes p < currentBytes st + sizes p (take (Suc k) (filter (candidate p) es))"
  (is "_ \<Longrightarrow> _ \<Longrightarrow> \<exists>k < _. ?Q k es st")
proof (induction es arbitrary: st)
  case Nil
  then show ?case by simp
next
  case (Cons e es)
  show ?case
  proof (rule scan_cases [where p = p and e = e and st = st])
    assume a: "\<not> candidate p e"
    then have "truncated (result (scan p es st))" using Cons.prems(1) by (simp add: scan_skip)
    from Cons.IH [OF this Cons.prems(2)]
    obtain k where "k < length (filter (candidate p) es)" "?Q k es st" by blast
    then have "k < length (filter (candidate p) (e # es)) \<and> ?Q k (e # es) st"
      using a by (simp add: scan_skip)
    then show ?thesis by blast
  next
    assume a: "candidate p e" "effectiveMaxBytes p < currentBytes st + eventSize p e"
    have "0 < length (filter (candidate p) (e # es)) \<and> ?Q 0 (e # es) st"
      using a by (simp add: scan_truncate [OF a])
    then show ?thesis by blast
  next
    assume a: "candidate p e" "currentBytes st + eventSize p e \<le> effectiveMaxBytes p"
      "effectiveLimit p \<le> js_length (events (result st))"
    have "\<not> truncated (result (scan p (e # es) st))"
      using Cons.prems(2) by (simp add: scan_limit [OF a])
    then show ?thesis using Cons.prems(1) by simp
  next
    assume a: "candidate p e" "currentBytes st + eventSize p e \<le> effectiveMaxBytes p"
      "js_length (events (result st)) < effectiveLimit p"
    let ?st = "\<lparr> result = (result st)\<lparr> events := events (result st) @ [toJSON e (includeStructured p)] \<rparr>,
         currentBytes = currentBytes st + eventSize p e, lastSeq = seq e \<rparr>"
    have t: "truncated (result (scan p es ?st))"
      using Cons.prems(1) by (simp add: scan_admit [OF a])
    have n: "\<not> truncated (result ?st)" using Cons.prems(2) by simp
    from Cons.IH [OF t n]
    obtain k where k: "k < length (filter (candidate p) es)" "?Q k es ?st" by blast
    have "Suc k < length (filter (candidate p) (e # es)) \<and> ?Q (Suc k) (e # es) st"
      using k a(1) by (simp add: scan_admit [OF a] add.assoc)
    then show ?thesis by blast
  qed
qed

section \<open>Computing with the model\<close>

text \<open>
  Running the scrubber inside the logic: a literal under the \<open>i\<close> flag is matched letter by
  letter, and a text in which no pattern can start is left as it is.
\<close>

fun starts_ci :: "string \<Rightarrow> string \<Rightarrow> bool" where
  "starts_ci [] s = True"
| "starts_ci (x # xs) [] = False"
| "starts_ci (x # xs) (c # cs) = (if c = x \<or> c = swap_case x then starts_ci xs cs else False)"

lemma rmatch_ci: "rmatch (ci lit) s = (if starts_ci lit s then [drop (length lit) s] else [])"
proof (induction lit arbitrary: s)
  case Nil
  then show ?case by (simp add: ci_def)
next
  case (Cons x xs)
  have step: "\<And>t. rmatch (ci (x # xs)) t = concat (map (rmatch (ci xs)) (rmatch (ci_char x) t))"
    by (simp add: ci_def)
  show ?case
    by (cases s) (simp_all add: step ci_char_def Cons.IH)
qed

lemma rmatch_Seq_ci:
  "rmatch (Seq (ci lit) r) s = (if starts_ci lit s then rmatch r (drop (length lit) s) else [])"
  by (simp add: rmatch_ci)

lemma swap_case_table:
  "swap_case CHR ''a'' = CHR ''A''" "swap_case CHR ''b'' = CHR ''B''" "swap_case CHR ''c'' = CHR ''C''"
  "swap_case CHR ''d'' = CHR ''D''" "swap_case CHR ''e'' = CHR ''E''" "swap_case CHR ''f'' = CHR ''F''"
  "swap_case CHR ''g'' = CHR ''G''" "swap_case CHR ''h'' = CHR ''H''" "swap_case CHR ''i'' = CHR ''I''"
  "swap_case CHR ''k'' = CHR ''K''" "swap_case CHR ''l'' = CHR ''L''" "swap_case CHR ''m'' = CHR ''M''"
  "swap_case CHR ''n'' = CHR ''N''" "swap_case CHR ''o'' = CHR ''O''" "swap_case CHR ''p'' = CHR ''P''"
  "swap_case CHR ''r'' = CHR ''R''" "swap_case CHR ''s'' = CHR ''S''" "swap_case CHR ''t'' = CHR ''T''"
  "swap_case CHR ''u'' = CHR ''U''" "swap_case CHR ''v'' = CHR ''V''" "swap_case CHR ''w'' = CHR ''W''"
  "swap_case CHR ''x'' = CHR ''X''" "swap_case CHR ''y'' = CHR ''Y''" "swap_case CHR ''z'' = CHR ''Z''"
  "swap_case CHR ''B'' = CHR ''b''" "swap_case CHR ''D'' = CHR ''d''" "swap_case CHR ''O'' = CHR ''o''"
  "swap_case CHR ''A'' = CHR ''a''"
  "swap_case CHR ''-'' = CHR ''-''" "swap_case CHR ''.'' = CHR ''.''"
  by (simp_all add: swap_case_def upper_chars_def lower_chars_def)

lemma rmatch_unfold:
  "rmatch sep_chars s = rmatch (Star (Chars (\<lambda>c. c \<in> set quote_chars \<or> c = CHR '':'' \<or> is_space c))) s"
  "rmatch quote s = rmatch (Chars (\<lambda>c. c \<in> set quote_chars)) s"
  "rmatch quoted_value s = rmatch (Seqs [quote, Plus (Chars (\<lambda>c. c \<notin> set quote_chars)), quote]) s"
  "rmatch dash s = rmatch (Alt (Chars (\<lambda>c. c \<in> set ''_-'')) Eps) s"
  "rmatch token_char s = rmatch (Chars (\<lambda>c. is_alnum c \<or> c \<in> set ''-_'')) s"
  "rmatch b64_char s = rmatch (Chars (\<lambda>c. is_alnum c \<or> c \<in> set ''+/='')) s"
  "rmatch spaces1 s = rmatch (Seq (Chars is_space) (Star (Chars is_space))) s"
  "rmatch (Plus r) s = rmatch (Seq r (Star r)) s"
  "rmatch (AtLeast n r) s = rmatch (Seqs (replicate n r @ [Star r])) s"
  "rmatch (keyed key) s = rmatch (Seqs (key @ [sep_chars, quoted_value])) s"
  by (simp_all only: sep_chars_def quote_def quoted_value_def dash_def token_char_def b64_char_def
      spaces1_def Plus_def Opt_def AtLeast_def one_of_def keyed_def)

lemma replace_all_keyed:
  "replace_all (keyed key) f s = replace_all (Seqs (key @ [sep_chars, quoted_value])) f s"
  by (simp only: keyed_def)

lemmas chr_defs = quote_chars_def is_space_def is_alnum_def upper_chars_def lower_chars_def
lemmas sanitize_eval = sanitize_def REDACTION_PATTERNS_def replace_all_keyed rmatch_Seq_ci rmatch_ci
  swap_case_table rmatch_unfold chr_defs redact_match_def REDACTED_def

definition key_start_chars :: string where
  \<comment> \<open>the letters with which the redaction patterns start\<close>
  "key_start_chars = ''abcsrixptABCSRIXPT''"

definition plain :: "string \<Rightarrow> bool" where
  \<comment> \<open>a one-line text in which no redaction pattern can start\<close>
  "plain s = list_all (\<lambda>c. c \<notin> set key_start_chars \<and> c \<noteq> CHR 0x0A) s"

lemma replace_all_no_start:
  "list_all (\<lambda>c. c \<noteq> x \<and> c \<noteq> swap_case x) s \<Longrightarrow>
   replace_all (Seq (ci (x # xs)) r) f s = s"
proof (induction s)
  case Nil
  show ?case by simp
next
  case (Cons c s)
  have "rmatch (Seq (ci (x # xs)) r) (c # s) = []"
    using Cons.prems by (simp only: rmatch_Seq_ci) simp
  then show ?case using Cons by (simp del: rmatch.simps)
qed

lemma plain_no_start:
  "plain s \<Longrightarrow> x \<in> set key_start_chars \<Longrightarrow> swap_case x \<in> set key_start_chars \<Longrightarrow>
   list_all (\<lambda>c. c \<noteq> x \<and> c \<noteq> swap_case x) s"
  unfolding plain_def list_all_iff by blast

lemma replace_all_plain:
  "plain s \<Longrightarrow> x \<in> set key_start_chars \<Longrightarrow> swap_case x \<in> set key_start_chars \<Longrightarrow>
   replace_all (Seq (ci (x # xs)) r) f s = s"
  by (rule replace_all_no_start) (rule plain_no_start)

lemma sanitize_plain: "plain s \<Longrightarrow> sanitize s = s"
  by (simp add: sanitize_def REDACTION_PATTERNS_def keyed_def replace_all_plain key_start_chars_def
      swap_case_table)

lemma split_nl_one_line: "CHR 0x0A \<notin> set s \<Longrightarrow> split_nl s = [s]"
  by (induction s) auto

lemma truncateStackTrace_plain: "plain s \<Longrightarrow> truncateStackTrace s = s"
proof -
  assume "plain s"
  then have "split_nl s = [s]"
    by (intro split_nl_one_line) (auto simp: plain_def list_all_iff)
  then show ?thesis
    by (simp add: truncateStackTrace_def js_length_def MAX_STACK_LINES_def)
qed

lemma append_event_plain:
  "plain msg \<Longrightarrow> lv \<in> set LOG_LEVELS \<Longrightarrow>
   append_event b now lv src msg JNull =
     \<lparr> seq = b_seq b + 1, ts = now, level = lv, source = src, message = msg, data = JNull,
       e_size = js_length now + js_length lv + js_length src + js_length msg + 100 \<rparr>"
  by (simp add: append_event_def new_LogEvent_def calculateSize_def truthy_def sanitize_plain
      truncateStackTrace_plain)

lemma append_retained:
  "js_length (b_events b) < maxEvents (b_config b) \<Longrightarrow>
   b_totalBytes b + e_size (append_event b now lv src msg d) \<le> maxBytes (b_config b) \<Longrightarrow>
   snd (append b now lv src msg d) =
     b\<lparr> b_seq := b_seq b + 1,
        b_events := b_events b @ [append_event b now lv src msg d],
        b_totalBytes := b_totalBytes b + e_size (append_event b now lv src msg d) \<rparr>"
  by (simp add: append_def Let_def js_length_def) (subst enforceRetention.simps, simp add: js_length_def)

lemmas history_eval = run_def append_retained append_event_plain plain_def key_start_chars_def
  LOG_LEVELS_def new_LogBuffer_def DEFAULT_CONFIG_def js_length_def clear_def

lemmas json_eval = Number_toString_def dec_nat.simps digit_char_def json_quote_def
  json_escape_char_def hex_char_def js_length_def truthy_def

lemmas buffer_eval = run_def append_def append_event_def new_LogEvent_def calculateSize_def
  LOG_LEVELS_def new_LogBuffer_def DEFAULT_CONFIG_def enforceRetention.simps clear_def
  truncateStackTrace_def MAX_STACK_LINES_def

lemmas read_eval = read_def startSeq_of_def read_from_def read_scan_def scan_params_def
  initial_events_def limit_of_def maxBytes_of_def no_options_def scan.simps eventSize_def
  toJSON_def filtered_out_def dropped_warning_def

section \<open>Decoding a cursor\<close>

definition well_formed_v1 :: "js_error + json \<Rightarrow> bool" where
  \<comment> \<open>the reader's outcome is an object with \<open>v === 1\<close> and a number as \<open>s\<close>\<close>
  "well_formed_v1 x =
     (case x of
        Inr (JObj kvs) \<Rightarrow>
          map_of kvs ''v'' = Some (JNum 1) \<and>
          (case map_of kvs ''s'' of Some (JNum n) \<Rightarrow> True | _ \<Rightarrow> False)
      | _ \<Rightarrow> False)"

lemma decodeCursor_total: "\<exists>n. decodeCursor reader c = Inr n"
  by (simp add: decodeCursor_def split: sum.split option.split)

lemma decodeCursor_malformed:
  assumes "\<not> well_formed_v1 (reader c)"
  shows "decodeCursor reader c = Inr 0"
proof (cases "reader c")
  case (Inl e)
  then show ?thesis by (simp add: decodeCursor_def decodeCursor_try_def)
next
  case (Inr decoded)
  show ?thesis
  proof (cases decoded)
    case (JObj kvs)
    show ?thesis
    proof (cases "map_of kvs ''v'' = Some (JNum 1)")
      case False
      then show ?thesis
        using Inr JObj by (simp add: decodeCursor_def decodeCursor_try_def get_prop_def)
    next
      case True
      then have "\<not> (case map_of kvs ''s'' of Some (JNum n) \<Rightarrow> True | _ \<Rightarrow> False)"
        using assms Inr JObj by (simp add: well_formed_v1_def)
      then show ?thesis
        using Inr JObj True
        by (simp add: decodeCursor_def decodeCursor_try_def get_prop_def
            split: option.splits json.splits)
    qed
  qed (use Inr in \<open>simp_all add: decodeCursor_def decodeCursor_try_def get_prop_def\<close>)
qed

lemma read_from_cursor_irrelevant:
  "read_from b now (opts\<lparr> opt_cursor := c \<rparr>) s = read_from b now opts s"
  by (simp add: read_from_def read_scan_def scan_params_def limit_of_def maxBytes_of_def)

lemma startSeq_of_total: "\<exists>s. startSeq_of reader opts = Inr s"
proof (cases "opt_cursor opts")
  case None
  then show ?thesis by (simp add: startSeq_of_def)
next
  case (Some c)
  then show ?thesis
    using decodeCursor_total [of reader c] by (simp add: startSeq_of_def)
qed

lemma read_total:
  "\<exists>s. startSeq_of reader opts = Inr s \<and> read reader now b opts = Inr (read_from b now opts s)"
  using startSeq_of_total [of reader opts] by (auto simp: read_def)

text \<open>
  Claim C8. Whatever string is passed as the \<open>cursor\<close> option, and whatever the platform does
  with it (a value or an exception), decoding returns a number and \<open>read\<close> returns a result:
  no exception reaches the caller. A cursor that is not a well-formed version-1 cursor decodes
  to \<open>0\<close>, and \<open>read\<close> answers as it does without a cursor.
\<close>

theorem C8_cursor_decoding:
  "(\<exists>n. decodeCursor reader c = Inr n) \<and>
   (\<exists>r. read reader now b (opts\<lparr> opt_cursor := Some c \<rparr>) = Inr r) \<and>
   (\<not> well_formed_v1 (reader c) \<longrightarrow>
      decodeCursor reader c = Inr 0 \<and>
      read reader now b (opts\<lparr> opt_cursor := Some c \<rparr>) = read reader now b (opts\<lparr> opt_cursor := None \<rparr>))"
proof -
  have total: "\<exists>r. read reader now b (opts\<lparr> opt_cursor := Some c \<rparr>) = Inr r"
    using read_total [of reader "opts\<lparr> opt_cursor := Some c \<rparr>" now b] by blast
  have same: "read reader now b (opts\<lparr> opt_cursor := Some c \<rparr>) = read reader now b (opts\<lparr> opt_cursor := None \<rparr>)"
    if "\<not> well_formed_v1 (reader c)"
    using decodeCursor_malformed [of reader c, OF that]
    by (simp add: read_def startSeq_of_def read_from_cursor_irrelevant)
  show ?thesis
    using decodeCursor_total [of reader c] total same decodeCursor_malformed [of reader c] by blast
qed

lemmas cursor_eval = encodeCursor_def cursor_payload_def Number_toString_def dec_nat.simps
  digit_char_def json_quote_def json_escape_char_def b64_digit_def b64url_alphabet_def
  read_cursor_def base64url_decode_def List.map_filter_def b64_value_def byte_char_def
  JSON_parse_def skip_ws_def json_ws_def parse_string_def parse_nat_def is_digit_def
  digit_value_def is_prefix_def

lemma invalid_cursor_unreadable: "read_cursor ''invalid-cursor'' = Inl SyntaxError"
  by (simp add: cursor_eval)

theorem C8_cursor_decoding_witness:
  "\<not> well_formed_v1 (read_cursor ''invalid-cursor'') \<and>
   decodeCursor read_cursor ''invalid-cursor'' = Inr 0 \<and>
   read read_cursor ''2026-01-01T00:00:00.000Z'' (new_LogBuffer None None)
     (no_options\<lparr> opt_cursor := Some ''invalid-cursor'' \<rparr>)
   = read read_cursor ''2026-01-01T00:00:00.000Z'' (new_LogBuffer None None)
     (no_options\<lparr> opt_cursor := None \<rparr>)"
proof -
  have h: "\<not> well_formed_v1 (read_cursor ''invalid-cursor'')"
    by (simp add: invalid_cursor_unreadable well_formed_v1_def)
  show ?thesis
    using h C8_cursor_decoding [of read_cursor "''invalid-cursor''" "''2026-01-01T00:00:00.000Z''"
        "new_LogBuffer None None" no_options]
    by blast
qed

section \<open>A cursor that points to dropped data\<close>

lemma str_includes_prefix: "is_prefix p s \<Longrightarrow> str_includes s p"
  by (cases s) (auto simp: is_prefix_def)

lemma str_includes_append: "str_includes (a @ p @ c) p"
proof (induction a)
  case Nil
  show ?case by (rule str_includes_prefix) (simp add: is_prefix_def)
next
  case (Cons x a)
  then show ?case by simp
qed

lemma read_scan_prefix:
  "\<exists>k. events (result (read_scan b now opts s)) =
         initial_events b now s @
         views (scan_params b opts s) (take k (filter (candidate (scan_params b opts s)) (b_events b))) \<and>
       (take k (filter (candidate (scan_params b opts s)) (b_events b)) \<noteq> [] \<longrightarrow>
          js_length (JSON_stringify (JArr (initial_events b now s))) +
            sizes (scan_params b opts s) (take k (filter (candidate (scan_params b opts s)) (b_events b)))
            \<le> effectiveMaxBytes (scan_params b opts s) \<and>
          js_length (events (result (read_scan b now opts s))) \<le> effectiveLimit (scan_params b opts s))"
proof -
  let ?p = "scan_params b opts s"
  let ?st = "\<lparr> result = \<lparr> cursor = [], has_more = False, events = initial_events b now s, truncated = False \<rparr>,
             currentBytes = js_length (JSON_stringify (JArr (initial_events b now s))),
             lastSeq = effectiveStartSeq ?p \<rparr>"
  have rs: "read_scan b now opts s = scan ?p (b_events b) ?st"
    by (simp add: read_scan_def Let_def)
  from scan_prefix [of ?p "b_events b" ?st] obtain k where
    k: "events (result (scan ?p (b_events b) ?st)) =
          events (result ?st) @ views ?p (take k (filter (candidate ?p) (b_events b)))"
       "currentBytes (scan ?p (b_events b) ?st) =
          currentBytes ?st + sizes ?p (take k (filter (candidate ?p) (b_events b)))"
       "take k (filter (candidate ?p) (b_events b)) \<noteq> [] \<longrightarrow>
          currentBytes (scan ?p (b_events b) ?st) \<le> effectiveMaxBytes ?p \<and>
          js_length (events (result (scan ?p (b_events b) ?st))) \<le> effectiveLimit ?p"
    by blast
  show ?thesis
    by (rule exI [of _ k]) (use k in \<open>simp add: rs\<close>)
qed

lemma read_from_events: "events (read_from b now opts s) = events (result (read_scan b now opts s))"
  by (simp add: read_from_def Let_def)

lemma read_from_truncated: "truncated (read_from b now opts s) = truncated (result (read_scan b now opts s))"
  by (simp add: read_from_def Let_def)

lemma effectiveLimit_range:
  "1 \<le> effectiveLimit (scan_params b opts s) \<and> effectiveLimit (scan_params b opts s) \<le> 1000"
  by (simp add: scan_params_def)

lemma stale_start:
  "0 < s \<Longrightarrow> s < b_earliestRetainedSeq b \<Longrightarrow>
   initial_events b now s = [dropped_warning now (b_droppedCount b)] \<and>
   effectiveStartSeq (scan_params b opts s) = b_earliestRetainedSeq b"
  by (simp add: initial_events_def scan_params_def)

text \<open>
  Claim C4, amended. When the decoded cursor is greater than \<open>0\<close> and less than
  \<open>earliestRetainedSeq\<close>, \<open>read\<close> returns a list that starts with one synthetic event of level
  \<open>warn\<close> and source \<open>log_buffer\<close>, whose message gives the dropped-event counter; what follows
  it are stored events only, scanned from \<open>earliestRetainedSeq\<close> on. \<open>read\<close> is a function of
  the buffer and assigns none of its fields, so the synthetic event takes no sequence number
  and is not stored.
\<close>

theorem C4_stale_cursor_warning:
  assumes "startSeq_of reader opts = Inr s" and "0 < s" and "s < b_earliestRetainedSeq b"
  shows "\<exists>r k msg.
           read reader now b opts = Inr r \<and>
           events r =
             JObj [(''ts'', JStr now), (''level'', JStr ''warn''), (''source'', JStr ''log_buffer''),
                   (''message'', JStr msg), (''data'', JNull)]
             # views (scan_params b opts s)
                 (take k (filter (candidate (scan_params b opts s)) (b_events b))) \<and>
           str_includes msg (Number_toString (b_droppedCount b) @ '' events were dropped'') \<and>
           effectiveStartSeq (scan_params b opts s) = b_earliestRetainedSeq b"
proof -
  let ?p = "scan_params b opts s"
  let ?msg = "''Cursor pointed to dropped data. '' @
     (Number_toString (b_droppedCount b) @ '' events were dropped'') @
     '' due to retention policy. Resuming from earliest retained event.''"
  have rd: "read reader now b opts = Inr (read_from b now opts s)"
    using assms(1) by (simp add: read_def)
  obtain k where k: "events (result (read_scan b now opts s)) =
      initial_events b now s @ views ?p (take k (filter (candidate ?p) (b_events b)))"
    using read_scan_prefix [of b now opts s] by blast
  have w: "dropped_warning now (b_droppedCount b) =
      JObj [(''ts'', JStr now), (''level'', JStr ''warn''), (''source'', JStr ''log_buffer''),
            (''message'', JStr ?msg), (''data'', JNull)]"
    by (simp add: dropped_warning_def)
  have inc: "str_includes ?msg (Number_toString (b_droppedCount b) @ '' events were dropped'')"
    by (rule str_includes_append)
  have ev: "events (read_from b now opts s) =
      JObj [(''ts'', JStr now), (''level'', JStr ''warn''), (''source'', JStr ''log_buffer''),
            (''message'', JStr ?msg), (''data'', JNull)]
      # views ?p (take k (filter (candidate ?p) (b_events b)))"
    using k stale_start [OF assms(2,3), of now opts] w by (simp add: read_from_events)
  show ?thesis
    using rd ev inc stale_start [OF assms(2,3), of now opts] by blast
qed


definition example_log :: LogBuffer where
  \<comment> \<open>three events appended to a buffer that retains two\<close>
  "example_log =
     run (new_LogBuffer (Some 2) None)
       [Append ''2026-01-01T00:00:01.000Z'' ''info'' ''test'' ''Log 1'' JNull,
        Append ''2026-01-01T00:00:02.000Z'' ''info'' ''test'' ''Log 2'' JNull,
        Append ''2026-01-01T00:00:03.000Z'' ''info'' ''test'' ''Log 3'' JNull]"

lemma example_log_value:
  "example_log =
     \<lparr> b_config = \<lparr> maxEvents = 2, maxBytes = 10485760 \<rparr>,
       b_events =
         [\<lparr> seq = 2, ts = ''2026-01-01T00:00:02.000Z'', level = ''info'', source = ''test'',
            message = ''Log 2'', data = JNull, e_size = 137 \<rparr>,
          \<lparr> seq = 3, ts = ''2026-01-01T00:00:03.000Z'', level = ''info'', source = ''test'',
            message = ''Log 3'', data = JNull, e_size = 137 \<rparr>],
       b_seq = 3, b_totalBytes = 274, b_droppedCount = 1, b_earliestRetainedSeq = 2 \<rparr>"
  by (simp add: example_log_def run_def append_def Let_def append_event_plain plain_def
      key_start_chars_def LOG_LEVELS_def new_LogBuffer_def DEFAULT_CONFIG_def js_length_def
      enforceRetention.simps)

lemma cursor_0: "decodeCursor read_cursor (encodeCursor 0) = Inr 0" "encodeCursor 0 \<noteq> []"
  by (simp_all add: cursor_eval decodeCursor_def decodeCursor_try_def get_prop_def)

lemma cursor_1: "decodeCursor read_cursor (encodeCursor 1) = Inr 1" "encodeCursor 1 \<noteq> []"
  by (simp_all add: cursor_eval decodeCursor_def decodeCursor_try_def get_prop_def)

text \<open>
  Claim C4 says that every read whose decoded cursor is below \<open>earliestRetainedSeq\<close> starts
  with the synthetic warning. The test in \<open>read\<close> is \<open>startSeq > 0 && startSeq <
  this._earliestRetainedSeq\<close>: a cursor that decodes to \<open>0\<close> (the cursor that a read of a
  fresh, empty buffer returns) gets no warning, although events were dropped since.
\<close>

theorem C4_counterexample:
  "startSeq_of read_cursor (no_options\<lparr> opt_cursor := Some (encodeCursor 0) \<rparr>) = Inr 0 \<and>
   b_earliestRetainedSeq example_log = 2 \<and>
   b_droppedCount example_log = 1 \<and>
   map_sum id events
     (read read_cursor ''2026-01-01T00:00:04.000Z'' example_log
        (no_options\<lparr> opt_cursor := Some (encodeCursor 0) \<rparr>)) =
   Inr [JObj [(''ts'', JStr ''2026-01-01T00:00:03.000Z''), (''level'', JStr ''info''),
              (''source'', JStr ''test''), (''message'', JStr ''Log 3''), (''data'', JNull)]]"
proof -
  have s: "startSeq_of read_cursor (no_options\<lparr> opt_cursor := Some (encodeCursor 0) \<rparr>) = Inr 0"
    by (simp add: startSeq_of_def cursor_0 no_options_def)
  show ?thesis
    unfolding read_def s
    by (simp add: example_log_value read_from_def read_scan_def scan_params_def initial_events_def
        limit_of_def maxBytes_of_def no_options_def scan.simps eventSize_def toJSON_def
        filtered_out_def json_eval)
qed

theorem C4_stale_cursor_warning_witness:
  "startSeq_of read_cursor (no_options\<lparr> opt_cursor := Some (encodeCursor 1) \<rparr>) = Inr 1 \<and>
   (0::int) < 1 \<and> 1 < b_earliestRetainedSeq example_log \<and>
   (\<exists>r k msg.
      read read_cursor ''2026-01-01T00:00:04.000Z'' example_log
        (no_options\<lparr> opt_cursor := Some (encodeCursor 1) \<rparr>) = Inr r \<and>
      events r =
        JObj [(''ts'', JStr ''2026-01-01T00:00:04.000Z''), (''level'', JStr ''warn''),
              (''source'', JStr ''log_buffer''), (''message'', JStr msg), (''data'', JNull)]
        # views (scan_params example_log (no_options\<lparr> opt_cursor := Some (encodeCursor 1) \<rparr>) 1)
            (take k (filter (candidate (scan_params example_log
                (no_options\<lparr> opt_cursor := Some (encodeCursor 1) \<rparr>) 1)) (b_events example_log))) \<and>
      str_includes msg (Number_toString (b_droppedCount example_log) @ '' events were dropped'') \<and>
      effectiveStartSeq (scan_params example_log (no_options\<lparr> opt_cursor := Some (encodeCursor 1) \<rparr>) 1)
        = b_earliestRetainedSeq example_log)"
proof -
  have h1: "startSeq_of read_cursor (no_options\<lparr> opt_cursor := Some (encodeCursor 1) \<rparr>) = Inr 1"
    by (simp add: startSeq_of_def cursor_1 no_options_def)
  have h2: "(0::int) < 1" by simp
  have h3: "1 < b_earliestRetainedSeq example_log" by (simp add: example_log_value)
  show ?thesis
    using h1 h2 h3 C4_stale_cursor_warning [OF h1 h2 h3, of "''2026-01-01T00:00:04.000Z''"]
    by blast
qed

section \<open>The caps of a read\<close>

lemma sizes_views:
  "sizes p es = sum_list (map (\<lambda>j. js_length (JSON_stringify j) + 2) (views p es))"
  by (induction es) (simp_all add: eventSize_def)

text \<open>
  Claim C9. When \<open>read\<close> prepends the synthetic warning, the warning is charged against both
  caps of that read: with it, at most the effective limit minus one stored events are
  returned, and whenever a stored event is returned, the serialised size of the list holding
  the warning plus the size of every stored event returned stays within the effective byte
  cap.
\<close>

theorem C9_warning_charged:
  assumes "startSeq_of reader opts = Inr s" and "0 < s" and "s < b_earliestRetainedSeq b"
  shows "\<exists>r stored.
           read reader now b opts = Inr r \<and>
           events r = dropped_warning now (b_droppedCount b) # stored \<and>
           js_length stored \<le> effectiveLimit (scan_params b opts s) - 1 \<and>
           (stored \<noteq> [] \<longrightarrow>
              js_length (JSON_stringify (JArr [dropped_warning now (b_droppedCount b)])) +
                sum_list (map (\<lambda>j. js_length (JSON_stringify j) + 2) stored)
              \<le> effectiveMaxBytes (scan_params b opts s))"
proof -
  let ?p = "scan_params b opts s"
  let ?w = "dropped_warning now (b_droppedCount b)"
  have rd: "read reader now b opts = Inr (read_from b now opts s)"
    using assms(1) by (simp add: read_def)
  have init: "initial_events b now s = [?w]"
    using stale_start [OF assms(2,3)] by simp
  obtain k where k:
    "events (result (read_scan b now opts s)) =
       initial_events b now s @ views ?p (take k (filter (candidate ?p) (b_events b)))"
    "take k (filter (candidate ?p) (b_events b)) \<noteq> [] \<longrightarrow>
       js_length (JSON_stringify (JArr (initial_events b now s))) +
         sizes ?p (take k (filter (candidate ?p) (b_events b))) \<le> effectiveMaxBytes ?p \<and>
       js_length (events (result (read_scan b now opts s))) \<le> effectiveLimit ?p"
    using read_scan_prefix [of b now opts s] by blast
  let ?added = "take k (filter (candidate ?p) (b_events b))"
  have ev: "events (read_from b now opts s) = ?w # views ?p ?added"
    using k(1) init by (simp add: read_from_events)
  have len: "js_length (views ?p ?added) \<le> effectiveLimit ?p - 1"
  proof (cases "?added = []")
    case True
    have "js_length (views ?p ?added) = 0"
      by (simp only: True views_simps js_length_def list.size of_nat_0)
    then show ?thesis using effectiveLimit_range [of b opts s] by linarith
  next
    case False
    then show ?thesis using k(2) k(1) init by (simp add: js_length_def)
  qed
  have bytes: "views ?p ?added \<noteq> [] \<longrightarrow>
      js_length (JSON_stringify (JArr [?w])) +
        sum_list (map (\<lambda>j. js_length (JSON_stringify j) + 2) (views ?p ?added))
      \<le> effectiveMaxBytes ?p"
    using k(2) init by (auto simp: sizes_views views_def)
  show ?thesis
    using rd ev len bytes by blast
qed

theorem C9_warning_charged_witness:
  "startSeq_of read_cursor (no_options\<lparr> opt_cursor := Some (encodeCursor 1), opt_limit := Some 1 \<rparr>) = Inr 1 \<and>
   (0::int) < 1 \<and> 1 < b_earliestRetainedSeq example_log \<and>
   (\<exists>r stored.
      read read_cursor ''2026-01-01T00:00:04.000Z'' example_log
        (no_options\<lparr> opt_cursor := Some (encodeCursor 1), opt_limit := Some 1 \<rparr>) = Inr r \<and>
      events r = dropped_warning ''2026-01-01T00:00:04.000Z'' (b_droppedCount example_log) # stored \<and>
      js_length stored \<le> 0)"
proof -
  let ?opts = "no_options\<lparr> opt_cursor := Some (encodeCursor 1), opt_limit := Some 1 \<rparr>"
  have h1: "startSeq_of read_cursor ?opts = Inr 1"
    by (simp add: startSeq_of_def cursor_1 no_options_def)
  have h2: "(0::int) < 1" by simp
  have h3: "1 < b_earliestRetainedSeq example_log" by (simp add: example_log_value)
  have lim: "effectiveLimit (scan_params example_log ?opts 1) = 1"
    by (simp add: scan_params_def limit_of_def no_options_def)
  show ?thesis
    using h1 h2 h3 C9_warning_charged [OF h1 h2 h3, of "''2026-01-01T00:00:04.000Z''"] lim
    by auto
qed

definition candidates :: "LogBuffer \<Rightarrow> ReadOptions \<Rightarrow> int \<Rightarrow> LogEvent list" where
  \<comment> \<open>the retained events that a read starting at \<open>startSeq\<close> does not skip\<close>
  "candidates b opts startSeq = filter (candidate (scan_params b opts startSeq)) (b_events b)"

definition initial_bytes :: "LogBuffer \<Rightarrow> string \<Rightarrow> int \<Rightarrow> int" where
  \<comment> \<open>\<open>currentBytes\<close> before the loop\<close>
  "initial_bytes b now startSeq = js_length (JSON_stringify (JArr (initial_events b now startSeq)))"

lemma read_scan_as_scan:
  "read_scan b now opts s =
     scan (scan_params b opts s) (b_events b)
       \<lparr> result = \<lparr> cursor = [], has_more = False, events = initial_events b now s, truncated = False \<rparr>,
         currentBytes = initial_bytes b now s,
         lastSeq = effectiveStartSeq (scan_params b opts s) \<rparr>"
  by (simp add: read_scan_def Let_def initial_bytes_def)

lemma initial_events_length: "js_length (initial_events b now s) \<le> 1"
  by (simp add: initial_events_def js_length_def)

lemma read_from_has_more:
  "has_more (result (read_scan b now opts s)) \<Longrightarrow> has_more (read_from b now opts s)"
  by (simp add: read_from_def Let_def)

lemma read_from_length:
  "js_length (events (read_from b now opts s)) \<le> effectiveLimit (scan_params b opts s)"
proof -
  have "js_length (initial_events b now s) \<le> effectiveLimit (scan_params b opts s)"
    using initial_events_length [of b now s] effectiveLimit_range [of b opts s] by linarith
  then show ?thesis
    unfolding read_from_events read_scan_as_scan by (intro scan_length) simp
qed

lemma read_from_truncated_has_more:
  "truncated (read_from b now opts s) \<Longrightarrow> has_more (read_from b now opts s)"
proof -
  assume t: "truncated (read_from b now opts s)"
  have "truncated (result (read_scan b now opts s)) \<longrightarrow> has_more (result (read_scan b now opts s))"
    unfolding read_scan_as_scan by (rule scan_flags) simp
  then show ?thesis
    using t by (simp add: read_from_truncated read_from_has_more)
qed

lemma read_from_fits:
  "initial_bytes b now s + sizes (scan_params b opts s) (candidates b opts s)
     \<le> effectiveMaxBytes (scan_params b opts s) \<Longrightarrow>
   \<not> truncated (read_from b now opts s)"
  unfolding read_from_truncated read_scan_as_scan candidates_def
  by (rule scan_not_truncated) simp_all

lemma read_from_byte_cap_first:
  assumes "k < length (candidates b opts s)"
    and "initial_bytes b now s + sizes (scan_params b opts s) (take k (candidates b opts s))
           \<le> effectiveMaxBytes (scan_params b opts s)"
    and "js_length (initial_events b now s) + int k \<le> effectiveLimit (scan_params b opts s)"
    and "effectiveMaxBytes (scan_params b opts s)
           < initial_bytes b now s + sizes (scan_params b opts s) (take (Suc k) (candidates b opts s))"
  shows "truncated (read_from b now opts s) \<and> has_more (read_from b now opts s) \<and>
         events (read_from b now opts s) =
           initial_events b now s @ views (scan_params b opts s) (take k (candidates b opts s))"
proof -
  let ?p = "scan_params b opts s"
  let ?st = "\<lparr> result = \<lparr> cursor = [], has_more = False, events = initial_events b now s, truncated = False \<rparr>,
         currentBytes = initial_bytes b now s, lastSeq = effectiveStartSeq ?p \<rparr>"
  have ex: "events (result (scan ?p (b_events b) ?st)) =
        events (result ?st) @ views ?p (take k (filter (candidate ?p) (b_events b))) \<and>
      lastSeq (scan ?p (b_events b) ?st) =
        (if k = 0 then lastSeq ?st else seq (last (take k (filter (candidate ?p) (b_events b))))) \<and>
      truncated (result (scan ?p (b_events b) ?st)) =
        (truncated (result ?st) \<or>
         (k < length (filter (candidate ?p) (b_events b)) \<and>
          effectiveMaxBytes ?p < currentBytes ?st + sizes ?p (take (Suc k) (filter (candidate ?p) (b_events b))))) \<and>
      has_more (result (scan ?p (b_events b) ?st)) =
        (has_more (result ?st) \<or> k < length (filter (candidate ?p) (b_events b)))"
  proof (rule scan_exact)
    show "k \<le> length (filter (candidate ?p) (b_events b))"
      using assms(1) by (simp add: candidates_def)
    show "currentBytes ?st + sizes ?p (take k (filter (candidate ?p) (b_events b))) \<le> effectiveMaxBytes ?p"
      using assms(2) by (simp add: candidates_def)
    show "js_length (events (result ?st)) + int k \<le> effectiveLimit ?p"
      using assms(3) by simp
    show "effectiveMaxBytes ?p < currentBytes ?st + sizes ?p (take (Suc k) (filter (candidate ?p) (b_events b))) \<or>
          effectiveLimit ?p \<le> js_length (events (result ?st)) + int k"
      using assms(4) by (simp add: candidates_def)
  qed
  have t: "truncated (result (read_scan b now opts s))"
    using ex assms(1,4) by (simp add: read_scan_as_scan candidates_def)
  have h: "has_more (result (read_scan b now opts s))"
    using ex assms(1) by (simp add: read_scan_as_scan candidates_def)
  have e: "events (result (read_scan b now opts s)) =
      initial_events b now s @ views ?p (take k (candidates b opts s))"
    using ex by (simp add: read_scan_as_scan candidates_def)
  show ?thesis
    using t h e by (simp add: read_from_truncated read_from_has_more read_from_events)
qed

lemma read_from_truncated_by_bytes:
  assumes "truncated (read_from b now opts s)"
  shows "\<exists>k < length (candidates b opts s).
           events (read_from b now opts s) =
             initial_events b now s @ views (scan_params b opts s) (take k (candidates b opts s)) \<and>
           effectiveMaxBytes (scan_params b opts s)
             < initial_bytes b now s + sizes (scan_params b opts s) (take (Suc k) (candidates b opts s))"
proof -
  let ?p = "scan_params b opts s"
  let ?st = "\<lparr> result = \<lparr> cursor = [], has_more = False, events = initial_events b now s, truncated = False \<rparr>,
         currentBytes = initial_bytes b now s, lastSeq = effectiveStartSeq ?p \<rparr>"
  have t: "truncated (result (scan ?p (b_events b) ?st))"
    using assms by (simp add: read_from_truncated read_scan_as_scan)
  have n: "\<not> truncated (result ?st)" by simp
  from scan_truncated_by_bytes [OF t n]
  show ?thesis
    by (simp add: read_from_events read_scan_as_scan candidates_def)
qed

lemma read_from_limit_alone:
  assumes "k < length (candidates b opts s)"
    and "initial_bytes b now s + sizes (scan_params b opts s) (take (Suc k) (candidates b opts s))
           \<le> effectiveMaxBytes (scan_params b opts s)"
    and "js_length (initial_events b now s) + int k = effectiveLimit (scan_params b opts s)"
  shows "\<not> truncated (read_from b now opts s) \<and> has_more (read_from b now opts s) \<and>
         events (read_from b now opts s) =
           initial_events b now s @ views (scan_params b opts s) (take k (candidates b opts s))"
proof -
  let ?p = "scan_params b opts s"
  let ?cs = "filter (candidate ?p) (b_events b)"
  let ?st = "\<lparr> result = \<lparr> cursor = [], has_more = False, events = initial_events b now s, truncated = False \<rparr>,
         currentBytes = initial_bytes b now s, lastSeq = effectiveStartSeq ?p \<rparr>"
  have k: "k < length ?cs" using assms(1) by (simp add: candidates_def)
  have suc: "sizes ?p (take (Suc k) ?cs) = sizes ?p (take k ?cs) + eventSize ?p (?cs ! k)"
    using k by (simp add: take_Suc_conv_app_nth)
  have fitk: "initial_bytes b now s + sizes ?p (take k ?cs) \<le> effectiveMaxBytes ?p"
    using assms(2) suc eventSize_pos [of ?p "?cs ! k"] by (simp add: candidates_def)
  have ex: "events (result (scan ?p (b_events b) ?st)) = events (result ?st) @ views ?p (take k ?cs) \<and>
      lastSeq (scan ?p (b_events b) ?st) = (if k = 0 then lastSeq ?st else seq (last (take k ?cs))) \<and>
      truncated (result (scan ?p (b_events b) ?st)) =
        (truncated (result ?st) \<or>
         (k < length ?cs \<and> effectiveMaxBytes ?p < currentBytes ?st + sizes ?p (take (Suc k) ?cs))) \<and>
      has_more (result (scan ?p (b_events b) ?st)) = (has_more (result ?st) \<or> k < length ?cs)"
  proof (rule scan_exact)
    show "k \<le> length ?cs" using k by simp
    show "currentBytes ?st + sizes ?p (take k ?cs) \<le> effectiveMaxBytes ?p"
      using fitk by simp
    show "js_length (events (result ?st)) + int k \<le> effectiveLimit ?p"
      using assms(3) by simp
    show "effectiveMaxBytes ?p < currentBytes ?st + sizes ?p (take (Suc k) ?cs) \<or>
          effectiveLimit ?p \<le> js_length (events (result ?st)) + int k"
      using assms(3) by simp
  qed
  have t: "\<not> truncated (result (read_scan b now opts s))"
    using ex assms(2) by (simp add: read_scan_as_scan candidates_def)
  have h: "has_more (result (read_scan b now opts s))"
    using ex k by (simp add: read_scan_as_scan)
  have e: "events (result (read_scan b now opts s)) =
      initial_events b now s @ views ?p (take k (candidates b opts s))"
    using ex by (simp add: read_scan_as_scan candidates_def)
  show ?thesis
    using t h e by (simp add: read_from_truncated read_from_has_more read_from_events)
qed

text \<open>
  Claim C6. In every read the effective item limit is \<open>min(max(1, limit), 1000)\<close> with
  \<open>limit\<close> defaulting to \<open>200\<close>, and the effective byte cap is
  \<open>min(max(1000, maxBytes), 1000000)\<close> with \<open>maxBytes\<close> defaulting to \<open>256000\<close>. The list
  returned never holds more than the effective limit. \<open>truncated\<close> comes with \<open>has_more\<close>;
  it is not set when everything the scan could return fits the byte cap, whatever the item
  limit; and it is set when the next event does not fit the byte cap, also when the list is
  already full: the byte cap is looked at first. \<open>truncated\<close> is set only by the byte cap:
  whenever it is returned, the event that follows the events returned did not fit the byte
  cap; and when the list is full and the next event would still fit, \<open>has_more\<close> is returned
  without \<open>truncated\<close>.
\<close>

theorem C6_read_limits:
  "\<exists>r s.
     read reader now b opts = Inr r \<and> startSeq_of reader opts = Inr s \<and>
     effectiveLimit (scan_params b opts s) = min (max 1 (limit_of opts)) 1000 \<and>
     limit_of opts = (case opt_limit opts of None \<Rightarrow> 200 | Some l \<Rightarrow> l) \<and>
     effectiveMaxBytes (scan_params b opts s) = min (max 1000 (maxBytes_of opts)) 1000000 \<and>
     maxBytes_of opts = (case opt_maxBytes opts of None \<Rightarrow> 256000 | Some m \<Rightarrow> m) \<and>
     js_length (events r) \<le> effectiveLimit (scan_params b opts s) \<and>
     (truncated r \<longrightarrow> has_more r) \<and>
     (initial_bytes b now s + sizes (scan_params b opts s) (candidates b opts s)
        \<le> effectiveMaxBytes (scan_params b opts s) \<longrightarrow> \<not> truncated r) \<and>
     (\<forall>k. k < length (candidates b opts s) \<longrightarrow>
          initial_bytes b now s + sizes (scan_params b opts s) (take k (candidates b opts s))
            \<le> effectiveMaxBytes (scan_params b opts s) \<longrightarrow>
          js_length (initial_events b now s) + int k \<le> effectiveLimit (scan_params b opts s) \<longrightarrow>
          effectiveMaxBytes (scan_params b opts s)
            < initial_bytes b now s + sizes (scan_params b opts s) (take (Suc k) (candidates b opts s)) \<longrightarrow>
          truncated r \<and> has_more r \<and>
          events r = initial_events b now s @ views (scan_params b opts s) (take k (candidates b opts s))) \<and>
     (truncated r \<longrightarrow>
        (\<exists>k < length (candidates b opts s).
           events r = initial_events b now s @ views (scan_params b opts s) (take k (candidates b opts s)) \<and>
           effectiveMaxBytes (scan_params b opts s)
             < initial_bytes b now s + sizes (scan_params b opts s) (take (Suc k) (candidates b opts s)))) \<and>
     (\<forall>k. k < length (candidates b opts s) \<longrightarrow>
          initial_bytes b now s + sizes (scan_params b opts s) (take (Suc k) (candidates b opts s))
            \<le> effectiveMaxBytes (scan_params b opts s) \<longrightarrow>
          js_length (initial_events b now s) + int k = effectiveLimit (scan_params b opts s) \<longrightarrow>
          \<not> truncated r \<and> has_more r \<and>
          events r = initial_events b now s @ views (scan_params b opts s) (take k (candidates b opts s)))"
proof -
  obtain s where s: "startSeq_of reader opts = Inr s"
    and rd: "read reader now b opts = Inr (read_from b now opts s)"
    using read_total [of reader opts now b] by blast
  have lim: "effectiveLimit (scan_params b opts s) = min (max 1 (limit_of opts)) 1000"
    and cap: "effectiveMaxBytes (scan_params b opts s) = min (max 1000 (maxBytes_of opts)) 1000000"
    by (simp_all add: scan_params_def)
  have dl: "limit_of opts = (case opt_limit opts of None \<Rightarrow> 200 | Some l \<Rightarrow> l)"
    and dm: "maxBytes_of opts = (case opt_maxBytes opts of None \<Rightarrow> 256000 | Some m \<Rightarrow> m)"
    by (simp_all add: limit_of_def maxBytes_of_def)
  have only: "truncated (read_from b now opts s) \<longrightarrow>
      (\<exists>k < length (candidates b opts s).
         events (read_from b now opts s) =
           initial_events b now s @ views (scan_params b opts s) (take k (candidates b opts s)) \<and>
         effectiveMaxBytes (scan_params b opts s)
           < initial_bytes b now s + sizes (scan_params b opts s) (take (Suc k) (candidates b opts s)))"
    using read_from_truncated_by_bytes [of b now opts s] by (rule impI)
  have alone: "\<forall>k. k < length (candidates b opts s) \<longrightarrow>
      initial_bytes b now s + sizes (scan_params b opts s) (take (Suc k) (candidates b opts s))
        \<le> effectiveMaxBytes (scan_params b opts s) \<longrightarrow>
      js_length (initial_events b now s) + int k = effectiveLimit (scan_params b opts s) \<longrightarrow>
      \<not> truncated (read_from b now opts s) \<and> has_more (read_from b now opts s) \<and>
      events (read_from b now opts s) =
        initial_events b now s @ views (scan_params b opts s) (take k (candidates b opts s))"
    using read_from_limit_alone [of _ b opts s now] by (intro allI impI)
  have first: "\<forall>k. k < length (candidates b opts s) \<longrightarrow>
      initial_bytes b now s + sizes (scan_params b opts s) (take k (candidates b opts s))
        \<le> effectiveMaxBytes (scan_params b opts s) \<longrightarrow>
      js_length (initial_events b now s) + int k \<le> effectiveLimit (scan_params b opts s) \<longrightarrow>
      effectiveMaxBytes (scan_params b opts s)
        < initial_bytes b now s + sizes (scan_params b opts s) (take (Suc k) (candidates b opts s)) \<longrightarrow>
      truncated (read_from b now opts s) \<and> has_more (read_from b now opts s) \<and>
      events (read_from b now opts s) =
        initial_events b now s @ views (scan_params b opts s) (take k (candidates b opts s))"
    using read_from_byte_cap_first [of _ b opts s now] by (intro allI impI)
  have more: "truncated (read_from b now opts s) \<longrightarrow> has_more (read_from b now opts s)"
    using read_from_truncated_has_more [of b now opts s] by (rule impI)
  have fits: "initial_bytes b now s + sizes (scan_params b opts s) (candidates b opts s)
        \<le> effectiveMaxBytes (scan_params b opts s) \<longrightarrow> \<not> truncated (read_from b now opts s)"
    using read_from_fits [of b now s opts] by (rule impI)
  show ?thesis
    by (intro exI [of _ "read_from b now opts s"] exI [of _ s])
      (rule conjI [OF rd conjI [OF s conjI [OF lim conjI [OF dl conjI [OF cap conjI [OF dm
         conjI [OF read_from_length conjI [OF more conjI [OF fits conjI [OF first
         conjI [OF only alone]]]]]]]]]]])
qed


definition long_log :: LogBuffer where
  \<comment> \<open>two events of 900 characters each\<close>
  "long_log =
     run (new_LogBuffer None None)
       [Append ''2026-01-01T00:00:01.000Z'' ''info'' ''test'' (replicate 900 CHR ''0'') JNull,
        Append ''2026-01-01T00:00:02.000Z'' ''info'' ''test'' (replicate 900 CHR ''0'') JNull]"

lemma plain_replicate:
  "c \<notin> set key_start_chars \<Longrightarrow> c \<noteq> CHR 0x0A \<Longrightarrow> plain (replicate n c)"
  by (simp add: plain_def list_all_iff)

lemma long_log_value:
  "long_log =
     \<lparr> b_config = \<lparr> maxEvents = 10000, maxBytes = 10485760 \<rparr>,
       b_events =
         [\<lparr> seq = 1, ts = ''2026-01-01T00:00:01.000Z'', level = ''info'', source = ''test'',
            message = replicate 900 CHR ''0'', data = JNull, e_size = 1032 \<rparr>,
          \<lparr> seq = 2, ts = ''2026-01-01T00:00:02.000Z'', level = ''info'', source = ''test'',
            message = replicate 900 CHR ''0'', data = JNull, e_size = 1032 \<rparr>],
       b_seq = 2, b_totalBytes = 2064, b_droppedCount = 0, b_earliestRetainedSeq = 0 \<rparr>"
  by (simp add: long_log_def run_def append_retained append_event_plain plain_replicate
      key_start_chars_def LOG_LEVELS_def new_LogBuffer_def DEFAULT_CONFIG_def js_length_def)

lemma concat_replicate_single: "concat (replicate n [c]) = replicate n c"
  by (induction n) simp_all

lemma json_quote_zeros:
  "json_quote (replicate n CHR ''0'') = CHR 0x22 # replicate n CHR ''0'' @ [CHR 0x22]"
  by (simp add: json_quote_def json_escape_char_def concat_replicate_single)

theorem C6_read_limits_witness:
  "(\<exists>r. read read_cursor ''2026-01-01T00:00:03.000Z'' long_log
          (no_options\<lparr> opt_limit := Some 1, opt_maxBytes := Some 1000 \<rparr>) = Inr r \<and>
        truncated r \<and> has_more r \<and> js_length (events r) = 1) \<and>
   (\<exists>r. read read_cursor ''2026-01-01T00:00:03.000Z'' long_log
          (no_options\<lparr> opt_limit := Some 1 \<rparr>) = Inr r \<and>
        \<not> truncated r \<and> has_more r \<and> js_length (events r) = 1)"
proof -
  let ?now = "''2026-01-01T00:00:03.000Z''"
  have ib: "initial_bytes long_log ?now 0 = 2"
    by (simp add: initial_bytes_def initial_events_def js_length_def)
  have ie: "initial_events long_log ?now 0 = []"
    by (simp add: initial_events_def)
  have first: "\<exists>r. read read_cursor ?now long_log
          (no_options\<lparr> opt_limit := Some 1, opt_maxBytes := Some 1000 \<rparr>) = Inr r \<and>
        truncated r \<and> has_more r \<and> js_length (events r) = 1"
  proof -
    let ?opts = "no_options\<lparr> opt_limit := Some 1, opt_maxBytes := Some 1000 \<rparr>"
    have st: "startSeq_of read_cursor ?opts = Inr 0"
      by (simp add: startSeq_of_def no_options_def)
    have p: "scan_params long_log ?opts 0 =
        \<lparr> effectiveStartSeq = 0, effectiveLimit = 1, effectiveMaxBytes = 1000,
          levels = None, sources = None, includeStructured = True \<rparr>"
      by (simp add: scan_params_def long_log_value limit_of_def maxBytes_of_def no_options_def)
    have cs: "candidates long_log ?opts 0 = b_events long_log"
      unfolding candidates_def p by (simp add: candidate_def filtered_out_def long_log_value)
    let ?p = "\<lparr> effectiveStartSeq = 0, effectiveLimit = 1, effectiveMaxBytes = 1000,
          levels = None, sources = None, includeStructured = True \<rparr>"
    have sz: "sizes ?p (take 1 (b_events long_log)) = 991"
         "sizes ?p (take (Suc 1) (b_events long_log)) = 1982"
      by (simp_all add: long_log_value eventSize_def toJSON_def json_quote_zeros json_quote_def
          json_escape_char_def js_length_def)
    from C6_read_limits [of read_cursor ?now long_log ?opts]
    obtain r s where r: "read read_cursor ?now long_log ?opts = Inr r"
      and s: "startSeq_of read_cursor ?opts = Inr s"
      and bc: "\<forall>k. k < length (candidates long_log ?opts s) \<longrightarrow>
            initial_bytes long_log ?now s + sizes (scan_params long_log ?opts s) (take k (candidates long_log ?opts s))
              \<le> effectiveMaxBytes (scan_params long_log ?opts s) \<longrightarrow>
            js_length (initial_events long_log ?now s) + int k \<le> effectiveLimit (scan_params long_log ?opts s) \<longrightarrow>
            effectiveMaxBytes (scan_params long_log ?opts s)
              < initial_bytes long_log ?now s + sizes (scan_params long_log ?opts s) (take (Suc k) (candidates long_log ?opts s)) \<longrightarrow>
            truncated r \<and> has_more r \<and>
            events r = initial_events long_log ?now s @ views (scan_params long_log ?opts s) (take k (candidates long_log ?opts s))"
      by blast
    have s0: "s = 0" using s st by simp
    have "truncated r \<and> has_more r \<and>
          events r = initial_events long_log ?now 0 @ views (scan_params long_log ?opts 0) (take 1 (candidates long_log ?opts 0))"
      using bc [rule_format, of 1] unfolding s0 cs ib ie p sz
      by (simp add: long_log_value js_length_def)
    then show ?thesis
      using r unfolding ie cs p by (simp add: long_log_value js_length_def)
  qed
  have second: "\<exists>r. read read_cursor ?now long_log (no_options\<lparr> opt_limit := Some 1 \<rparr>) = Inr r \<and>
        \<not> truncated r \<and> has_more r \<and> js_length (events r) = 1"
  proof -
    let ?opts = "no_options\<lparr> opt_limit := Some 1 \<rparr>"
    have st: "startSeq_of read_cursor ?opts = Inr 0"
      by (simp add: startSeq_of_def no_options_def)
    have p: "scan_params long_log ?opts 0 =
        \<lparr> effectiveStartSeq = 0, effectiveLimit = 1, effectiveMaxBytes = 256000,
          levels = None, sources = None, includeStructured = True \<rparr>"
      by (simp add: scan_params_def long_log_value limit_of_def maxBytes_of_def no_options_def)
    have cs: "candidates long_log ?opts 0 = b_events long_log"
      unfolding candidates_def p by (simp add: candidate_def filtered_out_def long_log_value)
    let ?p = "\<lparr> effectiveStartSeq = 0, effectiveLimit = 1, effectiveMaxBytes = 256000,
          levels = None, sources = None, includeStructured = True \<rparr>"
    have sz: "sizes ?p (take (Suc 1) (b_events long_log)) = 1982"
      by (simp add: long_log_value eventSize_def toJSON_def json_quote_zeros json_quote_def
          json_escape_char_def js_length_def)
    from C6_read_limits [of read_cursor ?now long_log ?opts]
    obtain r s where r: "read read_cursor ?now long_log ?opts = Inr r"
      and s: "startSeq_of read_cursor ?opts = Inr s"
      and la: "\<forall>k. k < length (candidates long_log ?opts s) \<longrightarrow>
            initial_bytes long_log ?now s + sizes (scan_params long_log ?opts s) (take (Suc k) (candidates long_log ?opts s))
              \<le> effectiveMaxBytes (scan_params long_log ?opts s) \<longrightarrow>
            js_length (initial_events long_log ?now s) + int k = effectiveLimit (scan_params long_log ?opts s) \<longrightarrow>
            \<not> truncated r \<and> has_more r \<and>
            events r = initial_events long_log ?now s @ views (scan_params long_log ?opts s) (take k (candidates long_log ?opts s))"
      by blast
    have s0: "s = 0" using s st by simp
    have "\<not> truncated r \<and> has_more r \<and>
          events r = initial_events long_log ?now 0 @ views (scan_params long_log ?opts 0) (take 1 (candidates long_log ?opts 0))"
      using la [rule_format, of 1] unfolding s0 cs ib ie p sz
      by (simp add: long_log_value js_length_def)
    then show ?thesis
      using r unfolding ie cs p by (simp add: long_log_value js_length_def)
  qed
  show ?thesis by (rule conjI [OF first second])
qed

section \<open>Two reads joined by a cursor\<close>

lemma base64url_nonempty: "s \<noteq> [] \<Longrightarrow> base64url s \<noteq> []"
  by (induction s rule: base64url.induct) (simp_all add: Let_def)

lemma encodeCursor_nonempty: "encodeCursor n \<noteq> []"
  unfolding encodeCursor_def
  by (rule base64url_nonempty) (simp add: cursor_payload_def)

lemma decodeCursor_roundtrip:
  "reader (encodeCursor n) = Inr (cursor_payload n) \<Longrightarrow> decodeCursor reader (encodeCursor n) = Inr n"
  by (simp add: decodeCursor_def decodeCursor_try_def get_prop_def cursor_payload_def)

lemma filter_after_nth:
  assumes "sorted_wrt (<) (map seq es)" and "i < length es"
  shows "filter (\<lambda>e. seq (es ! i) < seq e) es = drop (Suc i) es"
proof -
  have split: "es = take (Suc i) es @ drop (Suc i) es" by simp
  have srt: "\<And>a b. a < b \<Longrightarrow> b < length es \<Longrightarrow> seq (es ! a) < seq (es ! b)"
    using assms(1) by (simp add: sorted_wrt_iff_nth_less)
  have low: "filter (\<lambda>e. seq (es ! i) < seq e) (take (Suc i) es) = []"
  proof -
    have "\<not> seq (es ! i) < seq e" if "e \<in> set (take (Suc i) es)" for e
    proof -
      from that obtain j where j: "j < Suc i" "j < length es" "e = es ! j"
        by (auto simp: in_set_conv_nth)
      show ?thesis
      proof (cases "j = i")
        case True
        then show ?thesis using j by simp
      next
        case False
        then have "seq (es ! j) < seq (es ! i)" using j assms(2) by (intro srt) simp_all
        then show ?thesis using j by simp
      qed
    qed
    then show ?thesis by (simp add: filter_empty_conv)
  qed
  have high: "filter (\<lambda>e. seq (es ! i) < seq e) (drop (Suc i) es) = drop (Suc i) es"
  proof -
    have "seq (es ! i) < seq e" if "e \<in> set (drop (Suc i) es)" for e
    proof -
      from that obtain j where j: "j < length es - Suc i" "e = es ! (Suc i + j)"
        by (auto simp: in_set_conv_nth)
      then show ?thesis using assms(2) by (simp add: srt)
    qed
    then show ?thesis by (simp add: filter_id_conv)
  qed
  have "filter (\<lambda>e. seq (es ! i) < seq e) es =
        filter (\<lambda>e. seq (es ! i) < seq e) (take (Suc i) es) @
        filter (\<lambda>e. seq (es ! i) < seq e) (drop (Suc i) es)"
    by (subst split) (simp only: filter_append)
  then show ?thesis using low high by simp
qed

lemma sorted_hd_least:
  assumes "sorted_wrt (<) (map seq es)" and "e \<in> set es"
  shows "seq (hd es) \<le> seq e"
proof (cases es)
  case Nil
  then show ?thesis using assms by simp
next
  case (Cons x xs)
  then show ?thesis using assms by auto
qed

definition no_filter :: "string list option \<Rightarrow> bool" where
  \<comment> \<open>a filter option that filters nothing: left out, \<open>null\<close>, or an empty list\<close>
  "no_filter f = (f = None \<or> f = Some [])"

lemma no_filter_out: "no_filter f \<Longrightarrow> \<not> filtered_out f x"
  by (auto simp: no_filter_def filtered_out_def)

lemma sizes_cong: "includeStructured p = includeStructured q \<Longrightarrow> sizes p es = sizes q es"
  by (induction es) (simp_all add: eventSize_def)

lemma views_cong: "includeStructured p = includeStructured q \<Longrightarrow> views p es = views q es"
  by (simp add: views_def)

lemma read_from_cursor: "cursor (read_from b now opts s) = encodeCursor (lastSeq (read_scan b now opts s))"
  by (simp add: read_from_def Let_def)

lemma read_from_exact:
  assumes "k \<le> length (candidates b opts s)"
    and "initial_bytes b now s + sizes (scan_params b opts s) (take k (candidates b opts s))
           \<le> effectiveMaxBytes (scan_params b opts s)"
    and "js_length (initial_events b now s) + int k \<le> effectiveLimit (scan_params b opts s)"
    and "k < length (candidates b opts s) \<Longrightarrow>
         effectiveMaxBytes (scan_params b opts s)
           < initial_bytes b now s + sizes (scan_params b opts s) (take (Suc k) (candidates b opts s)) \<or>
         effectiveLimit (scan_params b opts s) \<le> js_length (initial_events b now s) + int k"
  shows "events (read_from b now opts s) =
           initial_events b now s @ views (scan_params b opts s) (take k (candidates b opts s)) \<and>
         cursor (read_from b now opts s) =
           encodeCursor (if k = 0 then effectiveStartSeq (scan_params b opts s)
                         else seq (last (take k (candidates b opts s)))) \<and>
         (k < length (candidates b opts s) \<longrightarrow> has_more (read_from b now opts s))"
proof -
  let ?p = "scan_params b opts s"
  let ?st = "\<lparr> result = \<lparr> cursor = [], has_more = False, events = initial_events b now s, truncated = False \<rparr>,
         currentBytes = initial_bytes b now s, lastSeq = effectiveStartSeq ?p \<rparr>"
  have ex: "events (result (scan ?p (b_events b) ?st)) =
        events (result ?st) @ views ?p (take k (filter (candidate ?p) (b_events b))) \<and>
      lastSeq (scan ?p (b_events b) ?st) =
        (if k = 0 then lastSeq ?st else seq (last (take k (filter (candidate ?p) (b_events b))))) \<and>
      truncated (result (scan ?p (b_events b) ?st)) =
        (truncated (result ?st) \<or>
         (k < length (filter (candidate ?p) (b_events b)) \<and>
          effectiveMaxBytes ?p < currentBytes ?st + sizes ?p (take (Suc k) (filter (candidate ?p) (b_events b))))) \<and>
      has_more (result (scan ?p (b_events b) ?st)) =
        (has_more (result ?st) \<or> k < length (filter (candidate ?p) (b_events b)))"
  proof (rule scan_exact)
    show "k \<le> length (filter (candidate ?p) (b_events b))"
      using assms(1) by (simp add: candidates_def)
    show "currentBytes ?st + sizes ?p (take k (filter (candidate ?p) (b_events b))) \<le> effectiveMaxBytes ?p"
      using assms(2) by (simp add: candidates_def)
    show "js_length (events (result ?st)) + int k \<le> effectiveLimit ?p"
      using assms(3) by simp
    show "effectiveMaxBytes ?p < currentBytes ?st + sizes ?p (take (Suc k) (filter (candidate ?p) (b_events b))) \<or>
          effectiveLimit ?p \<le> js_length (events (result ?st)) + int k"
      if "k < length (filter (candidate ?p) (b_events b))"
      using assms(4) that by (simp add: candidates_def)
  qed
  have e: "events (result (read_scan b now opts s)) =
      initial_events b now s @ views ?p (take k (candidates b opts s))"
    using ex by (simp add: read_scan_as_scan candidates_def)
  have l: "lastSeq (read_scan b now opts s) =
      (if k = 0 then effectiveStartSeq ?p else seq (last (take k (candidates b opts s))))"
    using ex by (simp add: read_scan_as_scan candidates_def)
  have h: "k < length (candidates b opts s) \<longrightarrow> has_more (result (read_scan b now opts s))"
    using ex by (simp add: read_scan_as_scan candidates_def)
  show ?thesis
    using e l h by (simp add: read_from_events read_from_cursor read_from_has_more)
qed


text \<open>
  Claim C5, amended. Take a buffer, after any history, that holds more than 10 events and
  whose \<open>earliestRetainedSeq\<close> is below the sequence number of its first event, and a read
  without filters in which the first five events, and the next five, fit the effective byte
  cap. If the platform reads back the cursor it encoded, then \<open>read({limit: 5})\<close> returns the
  first five events and \<open>read({cursor, limit: 5})\<close> with the cursor of the first result
  returns the next five: together the first ten retained events, once each, in ascending
  order of sequence number.
\<close>

theorem C5_cursor_round_trip:
  assumes b: "b = run (new_LogBuffer me mb) ops"
    and len: "10 < length (b_events b)"
    and fresh: "b_earliestRetainedSeq b < seq (hd (b_events b))"
    and opts: "opt_cursor opts = None" "opt_limit opts = Some 5"
      "no_filter (opt_levels opts)" "no_filter (opt_sources opts)"
    and fit1: "2 + sizes (scan_params b opts 0) (take 5 (b_events b))
                 \<le> effectiveMaxBytes (scan_params b opts 0)"
    and fit2: "2 + sizes (scan_params b opts 0) (take 5 (drop 5 (b_events b)))
                 \<le> effectiveMaxBytes (scan_params b opts 0)"
    and reader: "reader (encodeCursor (seq (b_events b ! 4))) = Inr (cursor_payload (seq (b_events b ! 4)))"
  shows "\<exists>r1 r2.
           read reader now1 b opts = Inr r1 \<and>
           events r1 = views (scan_params b opts 0) (take 5 (b_events b)) \<and>
           read reader now2 b (opts\<lparr> opt_cursor := Some (cursor r1) \<rparr>) = Inr r2 \<and>
           events r2 = views (scan_params b opts 0) (take 5 (drop 5 (b_events b))) \<and>
           take 5 (b_events b) @ take 5 (drop 5 (b_events b)) = take 10 (b_events b) \<and>
           sorted_wrt (<) (map seq (take 10 (b_events b)))"
proof -
  let ?es = "b_events b"
  let ?p1 = "scan_params b opts 0"
  let ?s5 = "seq (?es ! 4)"
  let ?opts2 = "opts\<lparr> opt_cursor := Some (encodeCursor ?s5) \<rparr>"
  let ?p2 = "scan_params b ?opts2 ?s5"
  have c: "consistent b" unfolding b by (simp add: consistent_run consistent_new)
  have srt: "sorted_wrt (<) (map seq ?es)" using c by (simp add: consistent_def)
  have e0: "0 \<le> b_earliestRetainedSeq b" using c by (simp add: consistent_def)
  have above: "b_earliestRetainedSeq b < seq e" if "e \<in> set ?es" for e
    using sorted_hd_least [OF srt that] fresh by simp
  have s5_in: "?es ! 4 \<in> set ?es" using len by simp
  have s5_above: "b_earliestRetainedSeq b < ?s5" by (rule above [OF s5_in])
  \<comment> \<open>the first read\<close>
  have st1: "startSeq_of reader opts = Inr 0" using opts(1) by (simp add: startSeq_of_def)
  have lim1: "effectiveLimit ?p1 = 5" using opts(2) by (simp add: scan_params_def limit_of_def)
  have eff1: "effectiveStartSeq ?p1 = b_earliestRetainedSeq b" using e0 by (simp add: scan_params_def)
  have fl1: "levels ?p1 = opt_levels opts" "sources ?p1 = opt_sources opts"
    by (simp_all add: scan_params_def)
  have cs1: "candidates b opts 0 = ?es"
    unfolding candidates_def filter_id_conv
    using above opts(3,4) by (simp add: candidate_def eff1 fl1 no_filter_out)
  have ie1: "initial_events b now1 0 = []" by (simp add: initial_events_def)
  have ib1: "initial_bytes b now1 0 = 2" by (simp add: initial_bytes_def ie1 js_length_def)
  have r1: "events (read_from b now1 opts 0) =
              initial_events b now1 0 @ views ?p1 (take 5 (candidates b opts 0)) \<and>
            cursor (read_from b now1 opts 0) =
              encodeCursor (if (5::nat) = 0 then effectiveStartSeq ?p1
                            else seq (last (take 5 (candidates b opts 0)))) \<and>
            (5 < length (candidates b opts 0) \<longrightarrow> has_more (read_from b now1 opts 0))"
  proof (rule read_from_exact)
    show "5 \<le> length (candidates b opts 0)" using len by (simp add: cs1)
    show "initial_bytes b now1 0 + sizes ?p1 (take 5 (candidates b opts 0)) \<le> effectiveMaxBytes ?p1"
      using fit1 by (simp add: cs1 ib1)
    show "js_length (initial_events b now1 0) + int 5 \<le> effectiveLimit ?p1"
      by (simp add: ie1 lim1 js_length_def)
    show "effectiveMaxBytes ?p1 < initial_bytes b now1 0 + sizes ?p1 (take (Suc 5) (candidates b opts 0)) \<or>
          effectiveLimit ?p1 \<le> js_length (initial_events b now1 0) + int 5"
      by (simp add: ie1 lim1 js_length_def)
  qed
  have last5: "last (take 5 ?es) = ?es ! 4"
  proof -
    have ne: "take 5 ?es \<noteq> []" using len by auto
    have l5: "length (take 5 ?es) = 5" using len by simp
    show ?thesis
      unfolding last_conv_nth [OF ne] l5 by simp
  qed
  have ev1: "events (read_from b now1 opts 0) = views ?p1 (take 5 ?es)"
    using r1 by (simp add: cs1 ie1)
  have cur1: "cursor (read_from b now1 opts 0) = encodeCursor ?s5"
    using r1 by (simp add: cs1 last5)
  have rd1: "read reader now1 b opts = Inr (read_from b now1 opts 0)"
    using st1 by (simp add: read_def)
  \<comment> \<open>the second read\<close>
  have st2: "startSeq_of reader ?opts2 = Inr ?s5"
    using decodeCursor_roundtrip [of reader ?s5, OF reader] by (simp add: startSeq_of_def encodeCursor_nonempty)
  have lim2: "effectiveLimit ?p2 = 5" using opts(2) by (simp add: scan_params_def limit_of_def)
  have eff2: "effectiveStartSeq ?p2 = ?s5" using s5_above by (simp add: scan_params_def)
  have cap2: "effectiveMaxBytes ?p2 = effectiveMaxBytes ?p1"
    by (simp add: scan_params_def maxBytes_of_def)
  have inc2: "includeStructured ?p2 = includeStructured ?p1" by (simp add: scan_params_def)
  have fl2: "levels ?p2 = opt_levels opts" "sources ?p2 = opt_sources opts"
    by (simp_all add: scan_params_def)
  have "candidates b ?opts2 ?s5 = filter (\<lambda>e. ?s5 < seq e) ?es"
    unfolding candidates_def
    using opts(3,4) by (intro filter_cong) (simp_all add: candidate_def eff2 fl2 no_filter_out)
  then have cs2: "candidates b ?opts2 ?s5 = drop 5 ?es"
    using filter_after_nth [OF srt, of 4] len by simp
  have ie2: "initial_events b now2 ?s5 = []" using s5_above by (simp add: initial_events_def)
  have ib2: "initial_bytes b now2 ?s5 = 2" by (simp add: initial_bytes_def ie2 js_length_def)
  have r2: "events (read_from b now2 ?opts2 ?s5) =
              initial_events b now2 ?s5 @ views ?p2 (take 5 (candidates b ?opts2 ?s5)) \<and>
            cursor (read_from b now2 ?opts2 ?s5) =
              encodeCursor (if (5::nat) = 0 then effectiveStartSeq ?p2
                            else seq (last (take 5 (candidates b ?opts2 ?s5)))) \<and>
            (5 < length (candidates b ?opts2 ?s5) \<longrightarrow> has_more (read_from b now2 ?opts2 ?s5))"
  proof (rule read_from_exact)
    show "5 \<le> length (candidates b ?opts2 ?s5)" using len by (simp add: cs2)
    show "initial_bytes b now2 ?s5 + sizes ?p2 (take 5 (candidates b ?opts2 ?s5)) \<le> effectiveMaxBytes ?p2"
      using fit2 sizes_cong [OF inc2] by (simp add: cs2 ib2 cap2)
    show "js_length (initial_events b now2 ?s5) + int 5 \<le> effectiveLimit ?p2"
      by (simp add: ie2 lim2 js_length_def)
    show "effectiveMaxBytes ?p2 < initial_bytes b now2 ?s5 + sizes ?p2 (take (Suc 5) (candidates b ?opts2 ?s5)) \<or>
          effectiveLimit ?p2 \<le> js_length (initial_events b now2 ?s5) + int 5"
      by (simp add: ie2 lim2 js_length_def)
  qed
  have ev2: "events (read_from b now2 ?opts2 ?s5) = views ?p1 (take 5 (drop 5 ?es))"
    using r2 views_cong [OF inc2] by (simp add: cs2 ie2)
  have rd2: "read reader now2 b (opts\<lparr> opt_cursor := Some (cursor (read_from b now1 opts 0)) \<rparr>)
               = Inr (read_from b now2 ?opts2 ?s5)"
    using st2 by (simp add: read_def cur1)
  have ten: "take 5 ?es @ take 5 (drop 5 ?es) = take 10 ?es"
    using take_add [of 5 5 ?es] by simp
  have asc: "sorted_wrt (<) (map seq (take 10 ?es))"
    using srt by (simp add: sorted_wrt_take take_map [symmetric])
  show ?thesis
    using rd1 ev1 rd2 ev2 ten asc by blast
qed


definition eleven_log :: LogBuffer where
  \<comment> \<open>eleven short events in a buffer with the default configuration\<close>
  "eleven_log =
     run (new_LogBuffer None None)
       [Append ''2026-01-01T00:00:01.000Z'' ''info'' ''test'' ''Log 1'' JNull,
        Append ''2026-01-01T00:00:02.000Z'' ''info'' ''test'' ''Log 2'' JNull,
        Append ''2026-01-01T00:00:03.000Z'' ''info'' ''test'' ''Log 3'' JNull,
        Append ''2026-01-01T00:00:04.000Z'' ''info'' ''test'' ''Log 4'' JNull,
        Append ''2026-01-01T00:00:05.000Z'' ''info'' ''test'' ''Log 5'' JNull,
        Append ''2026-01-01T00:00:06.000Z'' ''info'' ''test'' ''Log 6'' JNull,
        Append ''2026-01-01T00:00:07.000Z'' ''info'' ''test'' ''Log 7'' JNull,
        Append ''2026-01-01T00:00:08.000Z'' ''info'' ''test'' ''Log 8'' JNull,
        Append ''2026-01-01T00:00:09.000Z'' ''info'' ''test'' ''Log 9'' JNull,
        Append ''2026-01-01T00:00:10.000Z'' ''info'' ''test'' ''Log 10'' JNull,
        Append ''2026-01-01T00:00:11.000Z'' ''info'' ''test'' ''Log 11'' JNull]"

lemma eleven_log_value:
  "eleven_log =
     \<lparr> b_config = \<lparr> maxEvents = 10000, maxBytes = 10485760 \<rparr>,
       b_events =
         [\<lparr> seq = 1, ts = ''2026-01-01T00:00:01.000Z'', level = ''info'', source = ''test'',
            message = ''Log 1'', data = JNull, e_size = 137 \<rparr>,
          \<lparr> seq = 2, ts = ''2026-01-01T00:00:02.000Z'', level = ''info'', source = ''test'',
            message = ''Log 2'', data = JNull, e_size = 137 \<rparr>,
          \<lparr> seq = 3, ts = ''2026-01-01T00:00:03.000Z'', level = ''info'', source = ''test'',
            message = ''Log 3'', data = JNull, e_size = 137 \<rparr>,
          \<lparr> seq = 4, ts = ''2026-01-01T00:00:04.000Z'', level = ''info'', source = ''test'',
            message = ''Log 4'', data = JNull, e_size = 137 \<rparr>,
          \<lparr> seq = 5, ts = ''2026-01-01T00:00:05.000Z'', level = ''info'', source = ''test'',
            message = ''Log 5'', data = JNull, e_size = 137 \<rparr>,
          \<lparr> seq = 6, ts = ''2026-01-01T00:00:06.000Z'', level = ''info'', source = ''test'',
            message = ''Log 6'', data = JNull, e_size = 137 \<rparr>,
          \<lparr> seq = 7, ts = ''2026-01-01T00:00:07.000Z'', level = ''info'', source = ''test'',
            message = ''Log 7'', data = JNull, e_size = 137 \<rparr>,
          \<lparr> seq = 8, ts = ''2026-01-01T00:00:08.000Z'', level = ''info'', source = ''test'',
            message = ''Log 8'', data = JNull, e_size = 137 \<rparr>,
          \<lparr> seq = 9, ts = ''2026-01-01T00:00:09.000Z'', level = ''info'', source = ''test'',
            message = ''Log 9'', data = JNull, e_size = 137 \<rparr>,
          \<lparr> seq = 10, ts = ''2026-01-01T00:00:10.000Z'', level = ''info'', source = ''test'',
            message = ''Log 10'', data = JNull, e_size = 138 \<rparr>,
          \<lparr> seq = 11, ts = ''2026-01-01T00:00:11.000Z'', level = ''info'', source = ''test'',
            message = ''Log 11'', data = JNull, e_size = 138 \<rparr>],
       b_seq = 11, b_totalBytes = 1509, b_droppedCount = 0, b_earliestRetainedSeq = 0 \<rparr>"
  by (simp add: eleven_log_def run_def append_retained append_event_plain plain_def
      key_start_chars_def LOG_LEVELS_def new_LogBuffer_def DEFAULT_CONFIG_def js_length_def)

lemma cursor_5: "read_cursor (encodeCursor 5) = Inr (cursor_payload 5)"
  by (simp add: cursor_eval)

theorem C5_cursor_round_trip_witness:
  "10 < length (b_events eleven_log) \<and>
   b_earliestRetainedSeq eleven_log < seq (hd (b_events eleven_log)) \<and>
   read_cursor (encodeCursor (seq (b_events eleven_log ! 4)))
     = Inr (cursor_payload (seq (b_events eleven_log ! 4))) \<and>
   (\<exists>r1 r2.
      read read_cursor ''2026-01-01T00:01:00.000Z'' eleven_log (no_options\<lparr> opt_limit := Some 5 \<rparr>) = Inr r1 \<and>
      events r1 = views (scan_params eleven_log (no_options\<lparr> opt_limit := Some 5 \<rparr>) 0)
                    (take 5 (b_events eleven_log)) \<and>
      read read_cursor ''2026-01-01T00:02:00.000Z'' eleven_log
        (no_options\<lparr> opt_limit := Some 5, opt_cursor := Some (cursor r1) \<rparr>) = Inr r2 \<and>
      events r2 = views (scan_params eleven_log (no_options\<lparr> opt_limit := Some 5 \<rparr>) 0)
                    (take 5 (drop 5 (b_events eleven_log))))"
proof -
  let ?opts = "no_options\<lparr> opt_limit := Some 5 \<rparr>"
  let ?p = "\<lparr> effectiveStartSeq = 0, effectiveLimit = 5, effectiveMaxBytes = 256000,
        levels = None, sources = None, includeStructured = True \<rparr>"
  have b: "eleven_log = run (new_LogBuffer None None) (
       [Append ''2026-01-01T00:00:01.000Z'' ''info'' ''test'' ''Log 1'' JNull,
        Append ''2026-01-01T00:00:02.000Z'' ''info'' ''test'' ''Log 2'' JNull,
        Append ''2026-01-01T00:00:03.000Z'' ''info'' ''test'' ''Log 3'' JNull,
        Append ''2026-01-01T00:00:04.000Z'' ''info'' ''test'' ''Log 4'' JNull,
        Append ''2026-01-01T00:00:05.000Z'' ''info'' ''test'' ''Log 5'' JNull,
        Append ''2026-01-01T00:00:06.000Z'' ''info'' ''test'' ''Log 6'' JNull,
        Append ''2026-01-01T00:00:07.000Z'' ''info'' ''test'' ''Log 7'' JNull,
        Append ''2026-01-01T00:00:08.000Z'' ''info'' ''test'' ''Log 8'' JNull,
        Append ''2026-01-01T00:00:09.000Z'' ''info'' ''test'' ''Log 9'' JNull,
        Append ''2026-01-01T00:00:10.000Z'' ''info'' ''test'' ''Log 10'' JNull,
        Append ''2026-01-01T00:00:11.000Z'' ''info'' ''test'' ''Log 11'' JNull])"
    by (simp only: eleven_log_def)
  have len: "10 < length (b_events eleven_log)" by (simp add: eleven_log_value)
  have fresh: "b_earliestRetainedSeq eleven_log < seq (hd (b_events eleven_log))"
    by (simp add: eleven_log_value)
  have o: "opt_cursor ?opts = None" "opt_limit ?opts = Some 5"
    "no_filter (opt_levels ?opts)" "no_filter (opt_sources ?opts)"
    by (simp_all add: no_options_def no_filter_def)
  have p: "scan_params eleven_log ?opts 0 = ?p"
    by (simp add: scan_params_def eleven_log_value limit_of_def maxBytes_of_def no_options_def)
  have sz: "sizes ?p (take 5 (b_events eleven_log)) = 480"
       "sizes ?p (take 5 (drop 5 (b_events eleven_log))) = 481"
    by (simp_all add: eleven_log_value eventSize_def toJSON_def json_quote_def
        json_escape_char_def js_length_def)
  have fit1: "2 + sizes (scan_params eleven_log ?opts 0) (take 5 (b_events eleven_log))
                \<le> effectiveMaxBytes (scan_params eleven_log ?opts 0)"
    unfolding p sz by simp
  have fit2: "2 + sizes (scan_params eleven_log ?opts 0) (take 5 (drop 5 (b_events eleven_log)))
                \<le> effectiveMaxBytes (scan_params eleven_log ?opts 0)"
    unfolding p sz by simp
  have s5: "seq (b_events eleven_log ! 4) = 5" by (simp add: eleven_log_value)
  have reader: "read_cursor (encodeCursor (seq (b_events eleven_log ! 4)))
     = Inr (cursor_payload (seq (b_events eleven_log ! 4)))"
    unfolding s5 by (rule cursor_5)
  from C5_cursor_round_trip [where reader = read_cursor and b = eleven_log and opts = ?opts
        and ?now1.0 = "''2026-01-01T00:01:00.000Z''" and ?now2.0 = "''2026-01-01T00:02:00.000Z''",
        OF b len fresh o fit1 fit2 reader]
  obtain r1 r2 where
    a: "read read_cursor ''2026-01-01T00:01:00.000Z'' eleven_log ?opts = Inr r1"
       "events r1 = views (scan_params eleven_log ?opts 0) (take 5 (b_events eleven_log))"
       "read read_cursor ''2026-01-01T00:02:00.000Z'' eleven_log
          (?opts\<lparr> opt_cursor := Some (cursor r1) \<rparr>) = Inr r2"
       "events r2 = views (scan_params eleven_log ?opts 0) (take 5 (drop 5 (b_events eleven_log)))"
    by blast
  have ex: "\<exists>r1 r2.
      read read_cursor ''2026-01-01T00:01:00.000Z'' eleven_log ?opts = Inr r1 \<and>
      events r1 = views (scan_params eleven_log ?opts 0) (take 5 (b_events eleven_log)) \<and>
      read read_cursor ''2026-01-01T00:02:00.000Z'' eleven_log
        (?opts\<lparr> opt_cursor := Some (cursor r1) \<rparr>) = Inr r2 \<and>
      events r2 = views (scan_params eleven_log ?opts 0) (take 5 (drop 5 (b_events eleven_log)))"
    by (intro exI conjI) (rule a)+
  show ?thesis
    by (intro conjI) (rule len fresh reader ex)+
qed


definition big_log :: LogBuffer where
  \<comment> \<open>eleven events of 60000 characters each, in a buffer with the default configuration\<close>
  "big_log =
     run (new_LogBuffer None None)
       [Append ''2026-01-01T00:00:01.000Z'' ''info'' ''test'' (replicate 60000 CHR ''0'') JNull,
        Append ''2026-01-01T00:00:02.000Z'' ''info'' ''test'' (replicate 60000 CHR ''0'') JNull,
        Append ''2026-01-01T00:00:03.000Z'' ''info'' ''test'' (replicate 60000 CHR ''0'') JNull,
        Append ''2026-01-01T00:00:04.000Z'' ''info'' ''test'' (replicate 60000 CHR ''0'') JNull,
        Append ''2026-01-01T00:00:05.000Z'' ''info'' ''test'' (replicate 60000 CHR ''0'') JNull,
        Append ''2026-01-01T00:00:06.000Z'' ''info'' ''test'' (replicate 60000 CHR ''0'') JNull,
        Append ''2026-01-01T00:00:07.000Z'' ''info'' ''test'' (replicate 60000 CHR ''0'') JNull,
        Append ''2026-01-01T00:00:08.000Z'' ''info'' ''test'' (replicate 60000 CHR ''0'') JNull,
        Append ''2026-01-01T00:00:09.000Z'' ''info'' ''test'' (replicate 60000 CHR ''0'') JNull,
        Append ''2026-01-01T00:00:10.000Z'' ''info'' ''test'' (replicate 60000 CHR ''0'') JNull,
        Append ''2026-01-01T00:00:11.000Z'' ''info'' ''test'' (replicate 60000 CHR ''0'') JNull]"

lemma big_log_value:
  "big_log =
     \<lparr> b_config = \<lparr> maxEvents = 10000, maxBytes = 10485760 \<rparr>,
       b_events =
         [\<lparr> seq = 1, ts = ''2026-01-01T00:00:01.000Z'', level = ''info'', source = ''test'',
            message = replicate 60000 CHR ''0'', data = JNull, e_size = 60132 \<rparr>,
          \<lparr> seq = 2, ts = ''2026-01-01T00:00:02.000Z'', level = ''info'', source = ''test'',
            message = replicate 60000 CHR ''0'', data = JNull, e_size = 60132 \<rparr>,
          \<lparr> seq = 3, ts = ''2026-01-01T00:00:03.000Z'', level = ''info'', source = ''test'',
            message = replicate 60000 CHR ''0'', data = JNull, e_size = 60132 \<rparr>,
          \<lparr> seq = 4, ts = ''2026-01-01T00:00:04.000Z'', level = ''info'', source = ''test'',
            message = replicate 60000 CHR ''0'', data = JNull, e_size = 60132 \<rparr>,
          \<lparr> seq = 5, ts = ''2026-01-01T00:00:05.000Z'', level = ''info'', source = ''test'',
            message = replicate 60000 CHR ''0'', data = JNull, e_size = 60132 \<rparr>,
          \<lparr> seq = 6, ts = ''2026-01-01T00:00:06.000Z'', level = ''info'', source = ''test'',
            message = replicate 60000 CHR ''0'', data = JNull, e_size = 60132 \<rparr>,
          \<lparr> seq = 7, ts = ''2026-01-01T00:00:07.000Z'', level = ''info'', source = ''test'',
            message = replicate 60000 CHR ''0'', data = JNull, e_size = 60132 \<rparr>,
          \<lparr> seq = 8, ts = ''2026-01-01T00:00:08.000Z'', level = ''info'', source = ''test'',
            message = replicate 60000 CHR ''0'', data = JNull, e_size = 60132 \<rparr>,
          \<lparr> seq = 9, ts = ''2026-01-01T00:00:09.000Z'', level = ''info'', source = ''test'',
            message = replicate 60000 CHR ''0'', data = JNull, e_size = 60132 \<rparr>,
          \<lparr> seq = 10, ts = ''2026-01-01T00:00:10.000Z'', level = ''info'', source = ''test'',
            message = replicate 60000 CHR ''0'', data = JNull, e_size = 60132 \<rparr>,
          \<lparr> seq = 11, ts = ''2026-01-01T00:00:11.000Z'', level = ''info'', source = ''test'',
            message = replicate 60000 CHR ''0'', data = JNull, e_size = 60132 \<rparr>],
       b_seq = 11, b_totalBytes = 661452, b_droppedCount = 0, b_earliestRetainedSeq = 0 \<rparr>"
  by (simp add: big_log_def run_def append_retained append_event_plain plain_replicate
      key_start_chars_def LOG_LEVELS_def new_LogBuffer_def DEFAULT_CONFIG_def js_length_def)

text \<open>
  Claim C5 says that, in a buffer that holds more than 10 events, \<open>read({limit: 5})\<close> returns
  the first five. The byte cap of a read (\<open>256000\<close> by default) is looked at before the item
  limit: of eleven events of 60000 characters, the read returns four and reports
  \<open>truncated\<close>.
\<close>

theorem C5_counterexample:
  "length (b_events big_log) = 11 \<and>
   read read_cursor ''2026-01-01T00:01:00.000Z'' big_log (no_options\<lparr> opt_limit := Some 5 \<rparr>) =
   Inr \<lparr> cursor = encodeCursor 4, has_more = True,
         events = views (scan_params big_log (no_options\<lparr> opt_limit := Some 5 \<rparr>) 0)
                    (take 4 (b_events big_log)),
         truncated = True \<rparr>"
proof -
  let ?opts = "no_options\<lparr> opt_limit := Some 5 \<rparr>"
  let ?now = "''2026-01-01T00:01:00.000Z''"
  let ?p = "\<lparr> effectiveStartSeq = 0, effectiveLimit = 5, effectiveMaxBytes = 256000,
        levels = None, sources = None, includeStructured = True \<rparr>"
  have st: "startSeq_of read_cursor ?opts = Inr 0"
    by (simp add: startSeq_of_def no_options_def)
  have p: "scan_params big_log ?opts 0 = ?p"
    by (simp add: scan_params_def big_log_value limit_of_def maxBytes_of_def no_options_def)
  have cs: "candidates big_log ?opts 0 = b_events big_log"
    unfolding candidates_def p by (simp add: candidate_def filtered_out_def big_log_value)
  have ie: "initial_events big_log ?now 0 = []" by (simp add: initial_events_def)
  have ib: "initial_bytes big_log ?now 0 = 2" by (simp add: initial_bytes_def ie js_length_def)
  have sz: "sizes ?p (take 4 (b_events big_log)) = 240364"
       "sizes ?p (take (Suc 4) (b_events big_log)) = 300455"
    by (simp_all add: big_log_value eventSize_def toJSON_def json_quote_zeros json_quote_def
        json_escape_char_def js_length_def)
  have len: "length (b_events big_log) = 11" by (simp add: big_log_value)
  have k: "4 < length (candidates big_log ?opts 0)" by (simp add: cs len)
  have fits: "initial_bytes big_log ?now 0 + sizes (scan_params big_log ?opts 0) (take 4 (candidates big_log ?opts 0))
      \<le> effectiveMaxBytes (scan_params big_log ?opts 0)"
    unfolding cs ib p sz by simp
  have room: "js_length (initial_events big_log ?now 0) + int 4 \<le> effectiveLimit (scan_params big_log ?opts 0)"
    unfolding ie p by (simp add: js_length_def)
  have over: "effectiveMaxBytes (scan_params big_log ?opts 0)
      < initial_bytes big_log ?now 0 + sizes (scan_params big_log ?opts 0) (take (Suc 4) (candidates big_log ?opts 0))"
    unfolding cs ib p sz by simp
  have t: "truncated (read_from big_log ?now ?opts 0) \<and> has_more (read_from big_log ?now ?opts 0) \<and>
      events (read_from big_log ?now ?opts 0) =
        initial_events big_log ?now 0 @ views (scan_params big_log ?opts 0) (take 4 (candidates big_log ?opts 0))"
    using k fits room over by (rule read_from_byte_cap_first)
  have "events (read_from big_log ?now ?opts 0) =
          initial_events big_log ?now 0 @ views (scan_params big_log ?opts 0) (take 4 (candidates big_log ?opts 0)) \<and>
        cursor (read_from big_log ?now ?opts 0) =
          encodeCursor (if (4::nat) = 0 then effectiveStartSeq (scan_params big_log ?opts 0)
                        else seq (last (take 4 (candidates big_log ?opts 0)))) \<and>
        (4 < length (candidates big_log ?opts 0) \<longrightarrow> has_more (read_from big_log ?now ?opts 0))"
    using k fits room over by (intro read_from_exact) simp_all
  then have c: "cursor (read_from big_log ?now ?opts 0) = encodeCursor 4"
    unfolding cs by (simp add: big_log_value)
  have "read_from big_log ?now ?opts 0 =
      \<lparr> cursor = encodeCursor 4, has_more = True,
        events = views (scan_params big_log ?opts 0) (take 4 (b_events big_log)),
        truncated = True \<rparr>"
    using t c unfolding cs ie by (intro ReadResult.equality) simp_all
  then show ?thesis
    using len st by (simp add: read_def)
qed

section \<open>Scrubbing and truncating messages\<close>

definition inert :: "string \<Rightarrow> bool" where
  \<comment> \<open>a text that every redaction pattern passes over, whatever follows it\<close>
  "inert p =
     (\<forall>r \<in> set REDACTION_PATTERNS. \<forall>t. replace_all r redact_match (p @ t) = p @ replace_all r redact_match t)"

lemma inert_Nil: "inert []"
  by (simp add: inert_def)

lemma inert_append: "inert p \<Longrightarrow> inert q \<Longrightarrow> inert (p @ q)"
  by (simp add: inert_def)

lemma inert_concat_replicate: "inert p \<Longrightarrow> inert (concat (replicate n p))"
  by (induction n) (simp_all add: inert_Nil inert_append)

lemma foldl_inert:
  "\<forall>r \<in> set rs. \<forall>t. replace_all r f (p @ t) = p @ replace_all r f t \<Longrightarrow>
   foldl (\<lambda>result pattern. replace_all pattern f result) (p @ s) rs =
   p @ foldl (\<lambda>result pattern. replace_all pattern f result) s rs"
  by (induction rs arbitrary: s) simp_all

lemma sanitize_inert: "inert p \<Longrightarrow> sanitize (p @ s) = p @ sanitize s"
  unfolding sanitize_def inert_def by (rule foldl_inert)

lemma sanitize_Nil: "sanitize [] = []"
  by (simp add: sanitize_def REDACTION_PATTERNS_def)

lemma sanitize_inert_only: "inert p \<Longrightarrow> sanitize p = p"
  using sanitize_inert [of p "[]"] by (simp add: sanitize_Nil)

lemmas inert_eval = inert_def REDACTION_PATTERNS_def keyed_def rmatch_Seq_ci rmatch_ci
  swap_case_table

lemma inert_stack_line: "inert (CHR 0x0A # ''    at f (file.js:1:1)'')"
  by (simp add: inert_eval)

lemma inert_headline: "inert ''Error occurred''"
  by (simp add: inert_eval)

lemma inert_detail: "inert (CHR 0x0A # ''  detail'')"
  by (simp add: inert_eval)


lemma split_nl_nonempty: "split_nl s \<noteq> []"
  by (induction s) (auto split: list.split)

lemma split_nl_no_newline: "l \<in> set (split_nl s) \<Longrightarrow> CHR 0x0A \<notin> set l"
proof (induction s arbitrary: l)
  case Nil
  then show ?case by simp
next
  case (Cons c s)
  show ?case
  proof (cases "c = CHR 0x0A")
    case True
    then show ?thesis using Cons by auto
  next
    case False
    obtain x xs where sp: "split_nl s = x # xs"
      using split_nl_nonempty [of s] by (cases "split_nl s") auto
    then have "l = c # x \<or> l \<in> set xs" using Cons.prems False by simp
    then show ?thesis using Cons.IH [of x] Cons.IH [of l] sp False by auto
  qed
qed

lemma split_nl_line_then:
  "CHR 0x0A \<notin> set x \<Longrightarrow> split_nl (x @ CHR 0x0A # rest) = x # split_nl rest"
  by (induction x) auto

lemma split_join:
  "xs \<noteq> [] \<Longrightarrow> \<forall>l \<in> set xs. CHR 0x0A \<notin> set l \<Longrightarrow> split_nl (join [CHR 0x0A] xs) = xs"
proof (induction "[CHR 0x0A]" xs rule: join.induct)
  case 1
  then show ?case by simp
next
  case (2 x)
  then show ?case by (simp add: split_nl_one_line)
next
  case (3 x y ys)
  then show ?case by (simp add: split_nl_line_then)
qed

lemma join_snoc: "xs \<noteq> [] \<Longrightarrow> join sep (xs @ [t]) = join sep xs @ sep @ t"
  by (induction sep xs rule: join.induct) simp_all

lemma find_stack_start_less: "find_stack_start ls = Some i \<Longrightarrow> i < length ls"
  by (induction ls arbitrary: i) (auto split: if_splits)

lemma digit_char_not_newline: "n < 10 \<Longrightarrow> digit_char n \<noteq> CHR 0x0A"
proof -
  assume "n < 10"
  then have "digit_char n \<in> set ''0123456789''"
    unfolding digit_char_def by (intro nth_mem) simp
  then show ?thesis by auto
qed

lemma dec_nat_no_newline: "CHR 0x0A \<notin> set (dec_nat n)"
proof (induction n rule: dec_nat.induct)
  case (1 n)
  show ?case
  proof (cases "n < 10")
    case True
    then show ?thesis using digit_char_not_newline [of n] by (subst dec_nat.simps) simp
  next
    case False
    then show ?thesis
      using "1.IH" digit_char_not_newline [of "n mod 10"] by (subst dec_nat.simps) simp
  qed
qed

lemma Number_toString_no_newline: "CHR 0x0A \<notin> set (Number_toString n)"
  by (simp add: Number_toString_def dec_nat_no_newline)

lemma slice_take: "slice xs 0 (int n) = take n xs"
  by (simp add: slice_def slice_index_def js_length_def min_def)

lemma slice_from_drop: "slice_from xs (int n) = drop n xs"
  by (simp add: slice_from_def slice_index_def js_length_def min_def)

lemma slice_take_nonneg: "0 \<le> k \<Longrightarrow> slice xs 0 k = take (nat k) xs"
  using slice_take [of xs "nat k"] by simp

definition frames_trailer :: "int \<Rightarrow> string" where
  \<comment> \<open>the last line of a truncated stack trace\<close>
  "frames_trailer omitted = ''... ('' @ Number_toString omitted @ '' more stack frames)''"

lemma frames_trailer_no_newline: "CHR 0x0A \<notin> set (frames_trailer n)"
  by (simp add: frames_trailer_def Number_toString_no_newline)

lemma truncateStackTrace_no_stack:
  assumes "40 < length (split_nl s)" and "find_stack_start (split_nl s) = None"
  shows "truncateStackTrace s = join [CHR 0x0A] (take 40 (split_nl s) @ [''... (truncated)''])"
proof -
  have ne: "take 40 (split_nl s) \<noteq> []" using assms(1) by auto
  show ?thesis
    using assms slice_take_nonneg [of 40 "split_nl s"]
    by (simp add: truncateStackTrace_def Let_def MAX_STACK_LINES_def js_length_def join_snoc [OF ne])
qed

lemma truncateStackTrace_some:
  assumes "40 < length (split_nl s)" and "find_stack_start (split_nl s) = Some i"
  shows "truncateStackTrace s =
           join [CHR 0x0A]
             (take i (split_nl s) @ slice (drop i (split_nl s)) 0 (40 - int i) @
              [frames_trailer (int (length (split_nl s)) - 40)])"
proof -
  let ?ls = "split_nl s"
  have il: "i < length ?ls" using assms(2) by (rule find_stack_start_less)
  have ml: "js_length (slice ?ls 0 (int i)) = int i"
    using il by (simp add: slice_take js_length_def)
  have sl: "js_length (slice_from ?ls (int i)) = int (length ?ls) - int i"
    using il by (simp add: slice_from_drop js_length_def)
  show ?thesis
    using assms il
    by (simp add: truncateStackTrace_def Let_def MAX_STACK_LINES_def ml sl slice_take
        slice_from_drop frames_trailer_def js_length_def)
qed

lemma truncateStackTrace_stack:
  assumes "40 < length (split_nl s)" and "find_stack_start (split_nl s) = Some i" and "i \<le> 40"
  shows "truncateStackTrace s =
           join [CHR 0x0A]
             (take i (split_nl s) @ take (40 - i) (drop i (split_nl s)) @
              [frames_trailer (int (length (split_nl s)) - 40)])"
proof -
  have cut: "slice (drop i (split_nl s)) 0 (40 - int i) = take (40 - i) (drop i (split_nl s))"
    using assms(3) slice_take_nonneg [of "40 - int i" "drop i (split_nl s)"]
    by (simp add: nat_diff_distrib')
  show ?thesis
    unfolding truncateStackTrace_some [OF assms(1,2)] cut by (rule refl)
qed

lemma append_event_message:
  "message (append_event b now lv src msg d) =
     (if (if lv \<in> set LOG_LEVELS then lv else ''info'') \<noteq> ''debug''
      then truncateStackTrace (sanitize msg) else sanitize msg)"
  by (simp add: append_event_def new_LogEvent_def Let_def)

lemma not_debug: "lv \<noteq> ''debug'' \<Longrightarrow> (if lv \<in> set LOG_LEVELS then lv else ''info'') \<noteq> ''debug''"
  by simp

lemma enforceRetention_suffix: "\<exists>k. b_events (enforceRetention b) = drop k (b_events b)"
proof (induction b rule: enforceRetention.induct)
  case (1 b)
  show ?case
  proof (cases "js_length (b_events b) > maxEvents (b_config b) \<or> b_totalBytes b > maxBytes (b_config b)")
    case False
    then have "b_events (enforceRetention b) = drop 0 (b_events b)"
      by (subst enforceRetention.simps) simp
    then show ?thesis ..
  next
    case over: True
    show ?thesis
    proof (cases "b_events b")
      case Nil
      then have "b_events (enforceRetention b) = drop 0 (b_events b)"
        by (simp add: enforceRetention_empty)
      then show ?thesis ..
    next
      case (Cons dropped rest)
      from "1.IH" [OF over Cons] obtain k where
        "b_events (enforceRetention
           (b\<lparr> b_events := rest,
               b_totalBytes := b_totalBytes b - e_size dropped,
               b_droppedCount := b_droppedCount b + 1,
               b_earliestRetainedSeq := (case rest of [] \<Rightarrow> b_seq b | e # _ \<Rightarrow> seq e) \<rparr>)) = drop k rest"
        by auto
      then have "b_events (enforceRetention b) = drop (Suc k) (b_events b)"
        using over Cons by (subst enforceRetention.simps) simp
      then show ?thesis ..
    qed
  qed
qed

lemma append_stores:
  "b_events (snd (append b now lv src msg d)) = [] \<or>
   last (b_events (snd (append b now lv src msg d))) = append_event b now lv src msg d"
proof -
  let ?e = "append_event b now lv src msg d"
  obtain k where k: "b_events (snd (append b now lv src msg d)) = drop k (b_events b @ [?e])"
    using enforceRetention_suffix
      [of "b\<lparr> b_seq := b_seq b + 1, b_events := b_events b @ [?e],
               b_totalBytes := b_totalBytes b + e_size ?e \<rparr>"]
    by (auto simp: append_def Let_def)
  show ?thesis
  proof (cases "k \<le> length (b_events b)")
    case True
    then show ?thesis unfolding k by simp
  next
    case False
    then show ?thesis unfolding k by simp
  qed
qed


lemma split_nl_blocks_then:
  "CHR 0x0A \<notin> set x \<Longrightarrow> CHR 0x0A \<notin> set y \<Longrightarrow>
   split_nl (x @ concat (replicate n (CHR 0x0A # y)) @ CHR 0x0A # rest) = x # replicate n y @ split_nl rest"
proof (induction n arbitrary: x)
  case 0
  then show ?case by (simp add: split_nl_line_then)
next
  case (Suc n)
  have "split_nl (x @ concat (replicate (Suc n) (CHR 0x0A # y)) @ CHR 0x0A # rest) =
        split_nl (x @ CHR 0x0A # (y @ concat (replicate n (CHR 0x0A # y)) @ CHR 0x0A # rest))"
    by simp
  also have "\<dots> = x # split_nl (y @ concat (replicate n (CHR 0x0A # y)) @ CHR 0x0A # rest)"
    using Suc.prems(1) by (rule split_nl_line_then)
  also have "\<dots> = x # y # replicate n y @ split_nl rest"
    using Suc.IH [OF Suc.prems(2) Suc.prems(2)] by simp
  finally show ?case by simp
qed

lemma split_nl_blocks:
  "CHR 0x0A \<notin> set x \<Longrightarrow> CHR 0x0A \<notin> set y \<Longrightarrow>
   split_nl (x @ concat (replicate (Suc n) (CHR 0x0A # y))) = x # replicate (Suc n) y"
proof -
  assume a: "CHR 0x0A \<notin> set x" "CHR 0x0A \<notin> set y"
  have "concat (replicate (Suc n) (CHR 0x0A # y)) = concat (replicate n (CHR 0x0A # y)) @ CHR 0x0A # y"
    by (induction n) simp_all
  then have "split_nl (x @ concat (replicate (Suc n) (CHR 0x0A # y))) =
             split_nl (x @ concat (replicate n (CHR 0x0A # y)) @ CHR 0x0A # y)"
    by simp
  also have "\<dots> = x # replicate n y @ split_nl y"
    using a by (rule split_nl_blocks_then)
  finally show ?thesis
    using a by (simp add: split_nl_one_line replicate_append_same)
qed

lemma find_stack_start_skip:
  "\<forall>l \<in> set ls. \<not> is_stack_line l \<Longrightarrow>
   find_stack_start (ls @ rest) = map_option (\<lambda>i. length ls + i) (find_stack_start rest)"
proof (induction ls)
  case Nil
  show ?case by (cases "find_stack_start rest") simp_all
next
  case (Cons l ls)
  then show ?case by (cases "find_stack_start rest") simp_all
qed

lemmas line_eval = is_stack_line_def trim_def is_space_def is_prefix_def

definition stack_line :: string where
  "stack_line = ''    at f (file.js:1:1)''"

definition long_trace :: string where
  \<comment> \<open>a headline followed by 100 stack frames\<close>
  "long_trace = ''Error occurred'' @ concat (replicate 100 (CHR 0x0A # stack_line))"

definition late_trace :: string where
  \<comment> \<open>41 lines of text followed by one stack frame\<close>
  "late_trace = ''Error occurred'' @ concat (replicate 40 (CHR 0x0A # ''  detail'')) @ CHR 0x0A # stack_line"

lemma sanitize_long_trace: "sanitize long_trace = long_trace"
  unfolding long_trace_def stack_line_def
  by (intro sanitize_inert_only inert_append inert_concat_replicate inert_headline inert_stack_line)

lemma sanitize_late_trace: "sanitize late_trace = late_trace"
proof -
  have "inert (''Error occurred'' @ concat (replicate 40 (CHR 0x0A # ''  detail'')) @
               (CHR 0x0A # ''    at f (file.js:1:1)''))"
    by (intro inert_append inert_concat_replicate inert_headline inert_detail inert_stack_line)
  then show ?thesis
    unfolding late_trace_def stack_line_def by (rule sanitize_inert_only)
qed

lemma lines_long_trace: "split_nl long_trace = ''Error occurred'' # replicate 100 stack_line"
proof -
  have "split_nl (''Error occurred'' @ concat (replicate (Suc 99) (CHR 0x0A # stack_line))) =
        ''Error occurred'' # replicate (Suc 99) stack_line"
    by (rule split_nl_blocks) (simp_all add: stack_line_def)
  then show ?thesis by (simp add: long_trace_def)
qed

lemma lines_late_trace: "split_nl late_trace = ''Error occurred'' # replicate 40 ''  detail'' @ [stack_line]"
proof -
  have "split_nl (''Error occurred'' @ concat (replicate 40 (CHR 0x0A # ''  detail'')) @ CHR 0x0A # stack_line) =
        ''Error occurred'' # replicate 40 ''  detail'' @ split_nl stack_line"
    by (rule split_nl_blocks_then) simp_all
  then show ?thesis by (simp add: late_trace_def split_nl_one_line stack_line_def)
qed

lemma stack_line_is: "is_stack_line stack_line" "\<not> is_stack_line ''Error occurred''"
  "\<not> is_stack_line ''  detail''"
  by (simp_all add: line_eval stack_line_def)

lemma start_long_trace: "find_stack_start (split_nl long_trace) = Some 1"
proof -
  have "replicate 100 stack_line = stack_line # replicate 99 stack_line"
    by (simp add: replicate_Suc [symmetric] del: replicate_Suc)
  then show ?thesis by (simp add: lines_long_trace stack_line_is)
qed

lemma start_late_trace: "find_stack_start (split_nl late_trace) = Some 41"
proof -
  have "find_stack_start ((''Error occurred'' # replicate 40 ''  detail'') @ [stack_line]) =
        map_option (\<lambda>i. length (''Error occurred'' # replicate 40 ''  detail'') + i)
          (find_stack_start [stack_line])"
    by (rule find_stack_start_skip) (auto simp: stack_line_is)
  then show ?thesis by (simp add: lines_late_trace stack_line_is)
qed


text \<open>
  Claim C7 says that, once a stack line exists, the stored message fits the budget of 40
  lines plus a trailer that gives the number of omitted frames. The lines before the first
  stack line are kept whole, so when that line comes after the first 41 lines the budget is
  not met: of 41 lines of text and one stack frame, \<open>append\<close> at level \<open>error\<close> keeps the 41
  lines and adds a trailer, 42 lines in all, and the trailer speaks of 2 frames.
\<close>

theorem C7_counterexample:
  "length (split_nl (sanitize late_trace)) = 42 \<and>
   find_stack_start (split_nl (sanitize late_trace)) = Some 41 \<and>
   split_nl (message (append_event (new_LogBuffer None None) ''2026-01-01T00:00:01.000Z''
                        ''error'' ''test'' late_trace JNull)) =
     ''Error occurred'' # replicate 40 ''  detail'' @ [''... (2 more stack frames)'']"
proof -
  let ?head = "''Error occurred'' # replicate 40 ''  detail''"
  have ls: "split_nl late_trace = ?head @ [stack_line]" using lines_late_trace by simp
  have len: "length (split_nl late_trace) = 42" unfolding ls by simp
  have over: "40 < length (split_nl late_trace)" unfolding len by simp
  have tk: "take 41 (split_nl late_trace) = ?head" unfolding ls by simp
  have dr: "drop 41 (split_nl late_trace) = [stack_line]" unfolding ls by simp
  have cut: "slice [stack_line] 0 (40 - int 41) = []"
    by (simp add: slice_def slice_index_def js_length_def)
  have n2: "frames_trailer (int 42 - 40) = ''... (2 more stack frames)''"
    by (simp add: frames_trailer_def Number_toString_def dec_nat.simps digit_char_def)
  have tr: "truncateStackTrace late_trace = join [CHR 0x0A] (?head @ [''... (2 more stack frames)''])"
    unfolding truncateStackTrace_some [OF over start_late_trace] tk dr cut len n2 by simp
  have sp: "split_nl (join [CHR 0x0A] (?head @ [''... (2 more stack frames)''])) =
        ?head @ [''... (2 more stack frames)'']"
    by (rule split_join) auto
  have m: "message (append_event (new_LogBuffer None None) ''2026-01-01T00:00:01.000Z''
                        ''error'' ''test'' late_trace JNull) = truncateStackTrace late_trace"
    by (simp add: append_event_message sanitize_late_trace LOG_LEVELS_def)
  have c3: "split_nl (message (append_event (new_LogBuffer None None) ''2026-01-01T00:00:01.000Z''
                        ''error'' ''test'' late_trace JNull)) =
     ''Error occurred'' # replicate 40 ''  detail'' @ [''... (2 more stack frames)'']"
    unfolding m tr sp by simp
  show ?thesis
    unfolding sanitize_late_trace
    by (rule conjI [OF len conjI [OF start_late_trace c3 [unfolded sanitize_late_trace]]])
qed

text \<open>
  Claim C7, amended. For an \<open>append\<close> at a level other than \<open>debug\<close> whose sanitised message
  has more than 40 lines: if a stack line exists and the first one is among the first 41
  lines, the message of the event keeps all lines before it, then as many stack lines as the
  budget of 40 leaves, then one trailer line that gives the number of omitted lines, 41 lines
  in all; if no stack line exists the message is the first 40 lines and the trailer
  \<open>... (truncated)\<close>. At level \<open>debug\<close> the message is the sanitised message, whole. The event
  is the last one of the buffer afterwards, unless retention has emptied the buffer.
\<close>

theorem C7_stack_truncation:
  assumes "lv \<noteq> ''debug''" and "40 < length (split_nl (sanitize msg))"
  shows "(find_stack_start (split_nl (sanitize msg)) = None \<longrightarrow>
            message (append_event b now lv src msg d) =
              join [CHR 0x0A] (take 40 (split_nl (sanitize msg))) @ [CHR 0x0A] @ ''... (truncated)'' \<and>
            split_nl (message (append_event b now lv src msg d)) =
              take 40 (split_nl (sanitize msg)) @ [''... (truncated)'']) \<and>
         (\<forall>i. find_stack_start (split_nl (sanitize msg)) = Some i \<longrightarrow> i \<le> 40 \<longrightarrow>
            split_nl (message (append_event b now lv src msg d)) =
              take i (split_nl (sanitize msg)) @ take (40 - i) (drop i (split_nl (sanitize msg))) @
              [''... ('' @ Number_toString (int (length (split_nl (sanitize msg))) - 40) @
               '' more stack frames)''] \<and>
            length (split_nl (message (append_event b now lv src msg d))) = 41) \<and>
         message (append_event b now ''debug'' src msg d) = sanitize msg \<and>
         (b_events (snd (append b now lv src msg d)) = [] \<or>
          last (b_events (snd (append b now lv src msg d))) = append_event b now lv src msg d)"
proof -
  let ?ls = "split_nl (sanitize msg)"
  have m: "message (append_event b now lv src msg d) = truncateStackTrace (sanitize msg)"
    using not_debug [OF assms(1)] by (simp add: append_event_message)
  have clean: "\<forall>l \<in> set ?ls. CHR 0x0A \<notin> set l"
    using split_nl_no_newline by blast
  have none: "message (append_event b now lv src msg d) =
                join [CHR 0x0A] (take 40 ?ls) @ [CHR 0x0A] @ ''... (truncated)'' \<and>
              split_nl (message (append_event b now lv src msg d)) = take 40 ?ls @ [''... (truncated)'']"
    if n: "find_stack_start ?ls = None"
  proof -
    have ne: "take 40 ?ls \<noteq> []" using assms(2) by auto
    have t: "truncateStackTrace (sanitize msg) = join [CHR 0x0A] (take 40 ?ls @ [''... (truncated)''])"
      using assms(2) n by (rule truncateStackTrace_no_stack)
    have "split_nl (join [CHR 0x0A] (take 40 ?ls @ [''... (truncated)''])) = take 40 ?ls @ [''... (truncated)'']"
      using clean by (intro split_join) (auto dest: in_set_takeD)
    then show ?thesis by (simp add: m t join_snoc [OF ne])
  qed
  have some: "split_nl (message (append_event b now lv src msg d)) =
                take i ?ls @ take (40 - i) (drop i ?ls) @
                [''... ('' @ Number_toString (int (length ?ls) - 40) @ '' more stack frames)''] \<and>
              length (split_nl (message (append_event b now lv src msg d))) = 41"
    if s: "find_stack_start ?ls = Some i" and i: "i \<le> 40" for i
  proof -
    let ?out = "take i ?ls @ take (40 - i) (drop i ?ls) @ [frames_trailer (int (length ?ls) - 40)]"
    have t: "truncateStackTrace (sanitize msg) = join [CHR 0x0A] ?out"
      using assms(2) s i by (rule truncateStackTrace_stack)
    have "split_nl (join [CHR 0x0A] ?out) = ?out"
      using clean frames_trailer_no_newline
      by (intro split_join) (auto dest: in_set_takeD in_set_dropD)
    then have sp: "split_nl (message (append_event b now lv src msg d)) = ?out"
      by (simp add: m t)
    have "length ?out = 41" using assms(2) i by simp
    then show ?thesis using sp by (simp add: frames_trailer_def)
  qed
  have dbg: "message (append_event b now ''debug'' src msg d) = sanitize msg"
    by (simp add: append_event_message LOG_LEVELS_def)
  have c1: "find_stack_start ?ls = None \<longrightarrow>
      message (append_event b now lv src msg d) =
        join [CHR 0x0A] (take 40 ?ls) @ [CHR 0x0A] @ ''... (truncated)'' \<and>
      split_nl (message (append_event b now lv src msg d)) = take 40 ?ls @ [''... (truncated)'']"
    using none by (rule impI)
  have c2: "\<forall>i. find_stack_start ?ls = Some i \<longrightarrow> i \<le> 40 \<longrightarrow>
      split_nl (message (append_event b now lv src msg d)) =
        take i ?ls @ take (40 - i) (drop i ?ls) @
        [''... ('' @ Number_toString (int (length ?ls) - 40) @ '' more stack frames)''] \<and>
      length (split_nl (message (append_event b now lv src msg d))) = 41"
    using some by (intro allI impI)
  show ?thesis
    by (rule conjI [OF c1 conjI [OF c2 conjI [OF dbg append_stores]]])
qed

theorem C7_stack_truncation_witness:
  "''error'' \<noteq> ''debug'' \<and>
   40 < length (split_nl (sanitize long_trace)) \<and>
   find_stack_start (split_nl (sanitize long_trace)) = Some 1 \<and>
   split_nl (message (append_event (new_LogBuffer None None) ''2026-01-01T00:00:01.000Z''
                        ''error'' ''test'' long_trace JNull)) =
     ''Error occurred'' # replicate 39 stack_line @ [''... (61 more stack frames)''] \<and>
   message (append_event (new_LogBuffer None None) ''2026-01-01T00:00:01.000Z''
              ''debug'' ''test'' long_trace JNull) = long_trace"
proof -
  have h1: "''error'' \<noteq> ''debug''" by simp
  have h2: "40 < length (split_nl (sanitize long_trace))"
    by (simp add: sanitize_long_trace lines_long_trace)
  have h3: "find_stack_start (split_nl (sanitize long_trace)) = Some 1"
    by (simp add: sanitize_long_trace start_long_trace)
  have n: "Number_toString 61 = ''61''"
    by (simp add: Number_toString_def dec_nat.simps digit_char_def)
  note T = C7_stack_truncation [OF h1 h2, of "new_LogBuffer None None"
      "''2026-01-01T00:00:01.000Z''" "''test''" JNull]
  have le: "(1::nat) \<le> 40" by simp
  note S = T [THEN conjunct2, THEN conjunct1, rule_format, OF h3 le, THEN conjunct1]
  note b = T [THEN conjunct2, THEN conjunct2, THEN conjunct1]
  have a': "split_nl (message (append_event (new_LogBuffer None None) ''2026-01-01T00:00:01.000Z''
                        ''error'' ''test'' long_trace JNull)) =
     ''Error occurred'' # replicate 39 stack_line @ [''... (61 more stack frames)'']"
    unfolding S sanitize_long_trace lines_long_trace by (simp add: n)
  show ?thesis
    by (rule conjI [OF h1 conjI [OF h2 conjI [OF h3 conjI [OF a' b [unfolded sanitize_long_trace]]]]])
qed

section \<open>Redaction\<close>

datatype step = Key string | Idx nat

fun lookup :: "json \<Rightarrow> step list \<Rightarrow> json option" where
  \<comment> \<open>the value at a path of own keys and array indices; were a list to name a key twice,
    the later entry counts, as in an object built by assignments\<close>
  "lookup j [] = Some j"
| "lookup (JObj kvs) (Key k # p) = (case map_of (rev kvs) k of None \<Rightarrow> None | Some v \<Rightarrow> lookup v p)"
| "lookup (JArr xs) (Idx i # p) = (if i < length xs then lookup (xs ! i) p else None)"
| "lookup _ _ = None"

definition sanitize_entry :: "string \<Rightarrow> json \<Rightarrow> json" where
  \<comment> \<open>what \<open>_sanitizeObject\<close> assigns under one key of an object\<close>
  "sanitize_entry k v =
     (if sensitive_key k then JStr REDACTED
      else if typeof_object v then sanitizeObject v
      else (case v of JStr s \<Rightarrow> JStr (sanitize s) | v \<Rightarrow> v))"

definition bearer_example :: string where
  "bearer_example = ''authorization: '' @ [CHR 0x22] @ ''Bearer abc.def.ghi'' @ [CHR 0x22]"

definition bearer_redacted :: string where
  "bearer_redacted = ''authorization: '' @ [CHR 0x22] @ ''***REDACTED***'' @ [CHR 0x22]"

definition payload :: json where
  \<comment> \<open>a structured payload with flagged keys at three depths\<close>
  "payload =
     JObj [(''user'', JStr ''joe''),
           (''headers'', JObj [(''Authorization'', JStr ''Bearer secret123''),
                               (''content-type'', JStr ''none'')]),
           (''items'', JArr [JObj [(''db_password'', JStr ''hunter2'')], JNum 7])]"

definition proto_payload :: json where
  \<comment> \<open>\<open>JSON.parse('{"__proto__": "zzz", "a": 2}')\<close>: both keys are own properties\<close>
  "proto_payload = JObj [(''__proto__'', JStr ''zzz''), (''a'', JNum 2)]"

lemmas key_eval = sensitive_key_def toLowerCase_def toLowerCase_char_def upper_chars_def
  lower_chars_def is_prefix_def

lemma proto_not_sensitive: "\<not> sensitive_key ''__proto__''"
  by (simp add: key_eval)

lemma set_prop_map_of: "map_of (set_prop al k v) = (map_of al)(k \<mapsto> v)"
  by (induction al) (auto simp: fun_eq_iff)

lemma set_prop_keys: "fst ` set (set_prop al k v) = insert k (fst ` set al)"
  by (induction al) auto

lemma set_prop_distinct: "distinct (map fst al) \<Longrightarrow> distinct (map fst (set_prop al k v))"
proof (induction al)
  case Nil
  show ?case by simp
next
  case (Cons p ps)
  show ?case
  proof (cases "fst p = k")
    case True
    then show ?thesis using Cons.prems by simp
  next
    case False
    have "fst p \<notin> fst ` set (set_prop ps k v)"
      using False Cons.prems by (simp add: set_prop_keys)
    then show ?thesis using False Cons by simp
  qed
qed

lemma map_of_rev_distinct: "distinct (map fst al) \<Longrightarrow> map_of (rev al) k = map_of al k"
proof (cases "map_of al k")
  case None
  then have "k \<notin> fst ` set al" by (simp add: map_of_eq_None_iff)
  then have "map_of (rev al) k = None" by (simp add: map_of_eq_None_iff)
  then show ?thesis using None by simp
next
  case (Some v)
  assume d: "distinct (map fst al)"
  have "(k, v) \<in> set (rev al)" using Some by (auto dest: map_of_SomeD)
  moreover have "distinct (map fst (rev al))" using d by (simp only: rev_map [symmetric] distinct_rev)
  ultimately have "map_of (rev al) k = Some v" by (rule map_of_is_SomeI [rotated])
  then show ?thesis using Some by simp
qed

lemma foldl_assign_distinct:
  "distinct (map fst acc) \<Longrightarrow>
   distinct (map fst (foldl (\<lambda>result kv. assign result (fst kv) (g (fst kv) (snd kv))) acc kvs))"
  by (induction kvs arbitrary: acc) (simp_all add: assign_def set_prop_distinct)

lemma foldl_assign_map_of:
  "map_of (foldl (\<lambda>result kv. assign result (fst kv) (g (fst kv) (snd kv))) acc kvs) k =
     (if k = ''__proto__'' then map_of acc k
      else case map_of (rev kvs) k of None \<Rightarrow> map_of acc k | Some v \<Rightarrow> Some (g k v))"
proof (induction kvs arbitrary: acc)
  case Nil
  show ?case by simp
next
  case (Cons x xs)
  have "map_of (foldl (\<lambda>result kv. assign result (fst kv) (g (fst kv) (snd kv))) acc (x # xs)) k =
        (if k = ''__proto__'' then map_of (assign acc (fst x) (g (fst x) (snd x))) k
         else case map_of (rev xs) k of
                None \<Rightarrow> map_of (assign acc (fst x) (g (fst x) (snd x))) k
              | Some v \<Rightarrow> Some (g k v))"
    by (simp only: foldl.simps Cons.IH)
  then show ?case
    by (simp add: assign_def set_prop_map_of map_add_def split: option.split)
qed

lemma sanitizeObject_JObj:
  "sanitizeObject (JObj kvs) =
     JObj (foldl (\<lambda>result kv. assign result (fst kv) (sanitize_entry (fst kv) (snd kv))) [] kvs)"
  by (simp add: sanitize_entry_def)

lemma sanitize_entry_plain: "\<not> sensitive_key k \<Longrightarrow> sanitize_entry k v = sanitizeObject v"
  by (cases v) (simp_all add: sanitize_entry_def typeof_object_def)

lemma sanitize_entry_sensitive: "sensitive_key k \<Longrightarrow> sanitize_entry k v = JStr REDACTED"
  by (simp add: sanitize_entry_def)

lemma lookup_scalar: "p \<noteq> [] \<Longrightarrow> lookup (JStr s) p = None"
  by (cases p) simp_all

lemma lookup_sanitized_obj:
  "lookup (sanitizeObject (JObj kvs)) (Key k # p) =
     (if k = ''__proto__'' then None
      else case map_of (rev kvs) k of None \<Rightarrow> None | Some v \<Rightarrow> lookup (sanitize_entry k v) p)"
proof -
  let ?r = "foldl (\<lambda>result kv. assign result (fst kv) (sanitize_entry (fst kv) (snd kv))) [] kvs"
  have "distinct (map fst ?r)" by (rule foldl_assign_distinct) simp
  then have "map_of (rev ?r) k = map_of ?r k" by (rule map_of_rev_distinct)
  also have "\<dots> = (if k = ''__proto__'' then None
      else case map_of (rev kvs) k of None \<Rightarrow> None | Some v \<Rightarrow> Some (sanitize_entry k v))"
    by (simp add: foldl_assign_map_of split: option.split)
  finally show ?thesis
    unfolding sanitizeObject_JObj by (simp split: option.split)
qed

lemma lookup_sanitized_other:
  "lookup (sanitizeObject d) (st # p) = Some v \<Longrightarrow>
   (\<exists>kvs k. d = JObj kvs \<and> st = Key k) \<or> (\<exists>xs i. d = JArr xs \<and> st = Idx i)"
  by (cases d; cases st) simp_all

lemma redacted_in_output:
  "lookup (sanitizeObject d) (p @ [Key k]) = Some v \<Longrightarrow> sensitive_key k \<Longrightarrow> v = JStr REDACTED"
proof (induction p arbitrary: d)
  case Nil
  then obtain kvs where d: "d = JObj kvs"
    using lookup_sanitized_other [of d "Key k" "[]" v] by auto
  show ?case
    using Nil unfolding d
    by (auto simp: lookup_sanitized_obj sanitize_entry_sensitive
          simp del: sanitizeObject.simps(4) split: option.splits if_splits)
next
  case (Cons st p)
  from Cons.prems(1) have "lookup (sanitizeObject d) (st # (p @ [Key k])) = Some v" by simp
  from lookup_sanitized_other [OF this]
  show ?case
  proof (elim disjE exE conjE)
    fix kvs k0 assume d: "d = JObj kvs" "st = Key k0"
    from Cons.prems(1) obtain v0 where v0: "map_of (rev kvs) k0 = Some v0"
      and l: "lookup (sanitize_entry k0 v0) (p @ [Key k]) = Some v"
      unfolding d
      by (auto simp: lookup_sanitized_obj simp del: sanitizeObject.simps(4)
            split: option.splits if_splits)
    have "\<not> sensitive_key k0"
      using l by (auto simp: sanitize_entry_sensitive lookup_scalar)
    then have "lookup (sanitizeObject v0) (p @ [Key k]) = Some v"
      using l by (simp add: sanitize_entry_plain)
    then show ?thesis using Cons.IH Cons.prems(2) by blast
  next
    fix xs i assume d: "d = JArr xs" "st = Idx i"
    from Cons.prems(1) have "lookup (sanitizeObject (xs ! i)) (p @ [Key k]) = Some v"
      unfolding d by (auto split: if_splits)
    then show ?thesis using Cons.IH Cons.prems(2) by blast
  qed
qed

lemma proto_never_stored: "lookup (sanitizeObject d) (p @ [Key ''__proto__'']) = None"
proof (induction p arbitrary: d)
  case Nil
  show ?case
    by (cases d) (simp_all add: lookup_sanitized_obj del: sanitizeObject.simps(4))
next
  case (Cons st p)
  show ?case
  proof (cases "lookup (sanitizeObject d) (st # (p @ [Key ''__proto__'']))")
    case None
    then show ?thesis by simp
  next
    case (Some v)
    from lookup_sanitized_other [OF Some]
    show ?thesis
    proof (elim disjE exE conjE)
      fix kvs k0 assume d: "d = JObj kvs" "st = Key k0"
      from Some obtain v0 where l: "lookup (sanitize_entry k0 v0) (p @ [Key ''__proto__'']) = Some v"
        unfolding d
        by (auto simp: lookup_sanitized_obj simp del: sanitizeObject.simps(4)
              split: option.splits if_splits)
      have "\<not> sensitive_key k0"
        using l by (auto simp: sanitize_entry_sensitive lookup_scalar)
      then have "lookup (sanitizeObject v0) (p @ [Key ''__proto__'']) = Some v"
        using l by (simp add: sanitize_entry_plain)
      then show ?thesis using Cons.IH [of v0] by simp
    next
      fix xs i assume d: "d = JArr xs" "st = Idx i"
      from Some have "lookup (sanitizeObject (xs ! i)) (p @ [Key ''__proto__'']) = Some v"
        unfolding d by (auto split: if_splits)
      then show ?thesis using Cons.IH [of "xs ! i"] by simp
    qed
  qed
qed

lemma unflagged_preserved:
  "lookup d p = Some v \<Longrightarrow>
   \<forall>k. Key k \<in> set p \<longrightarrow> \<not> sensitive_key k \<and> k \<noteq> ''__proto__'' \<Longrightarrow>
   lookup (sanitizeObject d) p = Some (sanitizeObject v)"
proof (induction d p arbitrary: v rule: lookup.induct)
  case (1 j)
  then show ?case by simp
next
  case (2 kvs k p)
  then show ?case
    by (auto simp: lookup_sanitized_obj sanitize_entry_plain
          simp del: sanitizeObject.simps(4) split: option.splits)
next
  case (3 xs i p)
  then show ?case by (auto split: if_splits)
qed simp_all

lemma flagged_redacted:
  assumes "lookup d (p @ [Key k]) = Some v"
    and "\<forall>k'. Key k' \<in> set p \<longrightarrow> \<not> sensitive_key k' \<and> k' \<noteq> ''__proto__''"
    and "sensitive_key k"
  shows "lookup (sanitizeObject d) (p @ [Key k]) = Some (JStr REDACTED)"
  using assms
proof (induction d p arbitrary: v rule: lookup.induct)
  case (1 j)
  then show ?case
    using proto_not_sensitive
    by (cases j) (auto simp: lookup_sanitized_obj sanitize_entry_sensitive
          simp del: sanitizeObject.simps(4) split: option.splits)
next
  case (2 kvs k0 p)
  then show ?case
    by (auto simp: lookup_sanitized_obj sanitize_entry_plain
          simp del: sanitizeObject.simps(4) split: option.splits)
next
  case (3 xs i p)
  then show ?case by (auto split: if_splits)
qed simp_all

lemma sanitize_bearer: "sanitize bearer_example = bearer_redacted"
  unfolding bearer_example_def bearer_redacted_def by (simp add: sanitize_eval)

lemma truncateStackTrace_bearer: "truncateStackTrace bearer_redacted = bearer_redacted"
proof -
  have "split_nl bearer_redacted = [bearer_redacted]"
    by (rule split_nl_one_line) (simp add: bearer_redacted_def)
  then show ?thesis
    by (simp add: truncateStackTrace_def js_length_def MAX_STACK_LINES_def)
qed

lemma bearer_marked: "str_includes bearer_redacted REDACTED"
  using str_includes_append [of "''authorization: '' @ [CHR 0x22]" REDACTED "[CHR 0x22]"]
  by (simp add: bearer_redacted_def REDACTED_def)

lemma bearer_token_gone: "\<not> str_includes bearer_redacted ''abc.def.ghi''"
  by (simp add: bearer_redacted_def is_prefix_def)

lemma lookup_falsy: "\<not> truthy d \<Longrightarrow> lookup d (st # p) = None"
  by (cases d) (simp_all add: truthy_def)

lemma lookup_truthy: "lookup d (st # p) = Some v \<Longrightarrow> truthy d"
  using lookup_falsy [of d st p] by auto

lemma append_event_data:
  "data (append_event b now lv src msg d) = (if truthy d then sanitizeObject d else JNull)"
  by (simp add: append_event_def new_LogEvent_def Let_def)

lemma sanitizeObject_proto_payload: "sanitizeObject proto_payload = JObj [(''a'', JNum 2)]"
  by (simp add: proto_payload_def assign_def key_eval typeof_object_def)

lemma sanitizeObject_payload:
  "sanitizeObject payload =
     JObj [(''user'', JStr ''joe''),
           (''headers'', JObj [(''Authorization'', JStr ''***REDACTED***''),
                               (''content-type'', JStr ''none'')]),
           (''items'', JArr [JObj [(''db_password'', JStr ''***REDACTED***'')], JNum 7])]"
proof -
  have s: "sanitize ''joe'' = ''joe''" "sanitize ''none'' = ''none''"
    by (rule sanitize_plain, simp add: plain_def key_start_chars_def)+
  show ?thesis
    by (simp add: payload_def assign_def key_eval typeof_object_def s REDACTED_def)
qed

text \<open>
  What holds of redaction. The message \<open>authorization: "Bearer abc.def.ghi"\<close> is stored as
  \<open>authorization: "***REDACTED***"\<close> at every level and with every payload, also behind any
  text that the redaction patterns pass over. In the payload of the event, every value found
  under a flagged key is the marker, at any depth of objects and arrays. A value of the given
  payload whose path holds no key \<open>__proto__\<close> and no flagged key but the last is found at the
  same place afterwards, as the marker if its key is flagged and otherwise sanitised.
\<close>

lemma redaction_of_message:
  "message (append_event b now lv src bearer_example d) = bearer_redacted \<and>
   str_includes bearer_redacted REDACTED \<and>
   \<not> str_includes bearer_redacted ''abc.def.ghi''"
  by (simp add: append_event_message sanitize_bearer truncateStackTrace_bearer bearer_marked
      bearer_token_gone)

lemma redaction_behind_text: "inert pre \<Longrightarrow> sanitize (pre @ bearer_example) = pre @ bearer_redacted"
  by (simp add: sanitize_inert sanitize_bearer)

lemma flagged_keys_stored:
  assumes "lookup (data (append_event b now lv src msg d)) (p @ [Key k]) = Some v"
    and "sensitive_key k"
  shows "v = JStr REDACTED"
proof -
  have "truthy d"
  proof (rule ccontr)
    assume "\<not> truthy d"
    then have "data (append_event b now lv src msg d) = JNull" by (simp add: append_event_data)
    then show False using assms(1) by (cases p) simp_all
  qed
  then have "lookup (sanitizeObject d) (p @ [Key k]) = Some v"
    using assms(1) by (simp add: append_event_data)
  then show ?thesis using assms(2) by (rule redacted_in_output)
qed

lemma other_keys_stored:
  assumes "lookup d (p @ [Key k]) = Some v"
    and "\<forall>k'. Key k' \<in> set p \<longrightarrow> \<not> sensitive_key k' \<and> k' \<noteq> ''__proto__''"
    and "k \<noteq> ''__proto__''"
  shows "lookup (data (append_event b now lv src msg d)) (p @ [Key k]) =
           Some (if sensitive_key k then JStr REDACTED else sanitizeObject v)"
proof -
  have "truthy d" using assms(1) lookup_truthy by (cases p) auto
  then have d: "data (append_event b now lv src msg d) = sanitizeObject d"
    by (simp add: append_event_data)
  show ?thesis
  proof (cases "sensitive_key k")
    case True
    then show ?thesis using flagged_redacted [OF assms(1,2)] by (simp add: d)
  next
    case False
    then have "\<forall>k'. Key k' \<in> set (p @ [Key k]) \<longrightarrow> \<not> sensitive_key k' \<and> k' \<noteq> ''__proto__''"
      using assms(2,3) by auto
    from unflagged_preserved [OF assms(1) this] False show ?thesis by (simp add: d)
  qed
qed

text \<open>
  Claim C3, where the code departs from it. The key \<open>__proto__\<close> is not flagged, and the
  payload \<open>{"__proto__": "zzz", "a": 2}\<close> holds it next to the key \<open>a\<close>. The payload that
  \<open>append\<close> stores for it is \<open>{"a": 2}\<close>: the key \<open>__proto__\<close> is gone with its value, because
  the assignment \<open>result[key] = ...\<close> of \<open>_sanitizeObject\<close> goes to the setter that the fresh
  object inherits. The same holds of every payload at every depth: no stored payload has an
  own key \<open>__proto__\<close>. The event is the last one of the buffer afterwards, unless retention
  has emptied the buffer.
\<close>

theorem C3_proto_key_dropped:
  "\<not> sensitive_key ''__proto__'' \<and>
   lookup proto_payload [Key ''__proto__''] = Some (JStr ''zzz'') \<and>
   lookup proto_payload [Key ''a''] = Some (JNum 2) \<and>
   data (append_event b now lv src msg proto_payload) = JObj [(''a'', JNum 2)] \<and>
   lookup (data (append_event b now lv src msg proto_payload)) [Key ''__proto__''] = None \<and>
   lookup (data (append_event b now lv src msg proto_payload)) [Key ''a''] = Some (JNum 2) \<and>
   lookup (data (append_event b now lv src msg d)) (p @ [Key ''__proto__'']) = None \<and>
   (b_events (snd (append b now lv src msg proto_payload)) = [] \<or>
    last (b_events (snd (append b now lv src msg proto_payload))) =
      append_event b now lv src msg proto_payload)"
proof -
  have t: "truthy proto_payload" by (simp add: proto_payload_def truthy_def)
  have c2: "lookup proto_payload [Key ''__proto__''] = Some (JStr ''zzz'')"
    and c3: "lookup proto_payload [Key ''a''] = Some (JNum 2)"
    by (simp_all add: proto_payload_def)
  have c4: "data (append_event b now lv src msg proto_payload) = JObj [(''a'', JNum 2)]"
    using t by (simp add: append_event_data sanitizeObject_proto_payload)
  have c5: "lookup (data (append_event b now lv src msg proto_payload)) [Key ''__proto__''] = None"
    and c6: "lookup (data (append_event b now lv src msg proto_payload)) [Key ''a''] = Some (JNum 2)"
    unfolding c4 by simp_all
  have c7: "lookup (data (append_event b now lv src msg d)) (p @ [Key ''__proto__'']) = None"
  proof (cases "truthy d")
    case True
    then show ?thesis by (simp add: append_event_data proto_never_stored)
  next
    case False
    then have "data (append_event b now lv src msg d) = JNull" by (simp add: append_event_data)
    then show ?thesis by (cases p) simp_all
  qed
  show ?thesis
    by (rule conjI [OF proto_not_sensitive conjI [OF c2 conjI [OF c3 conjI [OF c4 conjI [OF c5
          conjI [OF c6 conjI [OF c7 append_stores]]]]]]])
qed

end
